theory Spec2Isabelle
  imports Complex_Main
begin

text \<open>
  A model of \<^verbatim>\<open>rbf/basis.py\<close>: the shape validator \<^verbatim>\<open>_assert_shape\<close>, the class
  \<^verbatim>\<open>RBF\<close> with its constructor, its method \<^verbatim>\<open>add_diff_to_cache\<close> and its
  method \<^verbatim>\<open>__call__\<close>, and the predefined instances \<^verbatim>\<open>phs1\<close> and \<^verbatim>\<open>ga\<close>. An
  instance is a record that every method takes and returns; an exception is an error
  value. Symbolic expressions are terms; the differentiation and the limits of the symbolic
  library are parameters; numpy arrays are shapes with items, broadcast as numpy does;
  floats are real numbers. The method \<^verbatim>\<open>__call__\<close> is modelled twice: on arrays as
  values, and on arrays in memory, where an array is a view of a buffer in a store.
\<close>

section \<open>Errors\<close>

text \<open>
  Every exception that \<^verbatim>\<open>rbf/basis.py\<close> raises itself is a Python \<^verbatim>\<open>ValueError\<close>;
  the raise sites are told apart by their message. One constructor stands for each raise site, under
  the name the specification gives it. The two messages of \<^verbatim>\<open>_assert_shape\<close> keep
  the values they format: the rank message names the label, the actual and the expected
  rank; the axis message names the axis, the label, the actual and the expected length.
  \<open>DerivativeError\<close>, \<open>UnsupportedLimit\<close> and \<open>CodegenError\<close> stand for
  failures raised inside the symbolic library (differentiation, limit, code generation),
  which the module lets through; \<open>CallError\<close> stands for what Python and numpy raise
  when an evaluator is missing from the cache or is called with a wrong number of
  arguments or with shapes that do not broadcast.
\<close>

datatype shape_msg =
    WrongRank string nat nat
  | WrongLength nat string nat nat

datatype error =
    InvalidSymbols
  | MissingRadialVariable
  | InvalidTolerance
  | ShapeMismatch shape_msg
  | DerivativeError
  | UnsupportedLimit
  | CodegenError
  | CallError

section \<open>Shape validation\<close>

text \<open>
  \<^verbatim>\<open>_assert_shape(a, shape, label)\<close>. The first argument of the model is
  \<^verbatim>\<open>np.shape(a)\<close>; an entry \<open>None\<close> of the pattern lets the axis have any length.
  \<open>check_axes\<close> is the loop over \<^verbatim>\<open>enumerate(zip(ashape, shape))\<close>.
\<close>

fun check_axes :: "nat \<Rightarrow> (nat \<times> nat option) list \<Rightarrow> string \<Rightarrow> error + unit" where
  "check_axes axis [] label = Inr ()"
| "check_axes axis ((i, None) # rest) label = check_axes (Suc axis) rest label"
| "check_axes axis ((i, Some j) # rest) label =
     (if i \<noteq> j then Inl (ShapeMismatch (WrongLength axis label i j))
      else check_axes (Suc axis) rest label)"

definition assert_shape :: "nat list \<Rightarrow> nat option list \<Rightarrow> string \<Rightarrow> error + unit" where
  "assert_shape ashape shp label =
     (if length ashape \<noteq> length shp
      then Inl (ShapeMismatch (WrongRank label (length ashape) (length shp)))
      else check_axes 0 (zip ashape shp) label)"

section \<open>Symbolic expressions\<close>

text \<open>
  The symbols of the module: \<^verbatim>\<open>_R = Symbol('r')\<close>, \<^verbatim>\<open>_EPS = Symbol('eps')\<close>, the
  coordinate symbols \<^verbatim>\<open>symbols('x:D')\<close> and \<^verbatim>\<open>symbols('c:D')\<close> that
  \<^verbatim>\<open>add_diff_to_cache\<close> creates (\<open>X k\<close> is \<^verbatim>\<open>xk\<close>, \<open>C k\<close> is \<^verbatim>\<open>ck\<close>), and any
  other symbol by its name.
\<close>

datatype sym = R | EPS | X nat | C nat | Other string

text \<open>
  Expressions are the terms the module builds with Python operators on symbols. The
  symbolic library keeps its expressions in a canonical form of its own; the model keeps
  the term as it was built. \<open>Piecewise l a b e\<close> is
  \<^verbatim>\<open>sympy.Piecewise((l, a < b), (e, True))\<close>, the only piecewise form the module
  builds.
\<close>

datatype expression =
    Num real
  | Sym sym
  | Add expression expression
  | Sub expression expression
  | Mul expression expression
  | Div expression expression
  | Pow expression expression
  | Neg expression
  | Sqrt expression
  | Log expression
  | Exp expression
  | Piecewise expression expression expression expression

primrec free_symbols :: "expression \<Rightarrow> sym set" where
  "free_symbols (Num v) = {}"
| "free_symbols (Sym s) = {s}"
| "free_symbols (Add a b) = free_symbols a \<union> free_symbols b"
| "free_symbols (Sub a b) = free_symbols a \<union> free_symbols b"
| "free_symbols (Mul a b) = free_symbols a \<union> free_symbols b"
| "free_symbols (Div a b) = free_symbols a \<union> free_symbols b"
| "free_symbols (Pow a b) = free_symbols a \<union> free_symbols b"
| "free_symbols (Neg a) = free_symbols a"
| "free_symbols (Sqrt a) = free_symbols a"
| "free_symbols (Log a) = free_symbols a"
| "free_symbols (Exp a) = free_symbols a"
| "free_symbols (Piecewise l a b e) =
     free_symbols l \<union> free_symbols a \<union> free_symbols b \<union> free_symbols e"

text \<open>\<^verbatim>\<open>expr.has(s)\<close>: the symbol occurs in the expression.\<close>

primrec has :: "expression \<Rightarrow> sym \<Rightarrow> bool" where
  "has (Num v) s = False"
| "has (Sym t) s = (t = s)"
| "has (Add a b) s = (has a s \<or> has b s)"
| "has (Sub a b) s = (has a s \<or> has b s)"
| "has (Mul a b) s = (has a s \<or> has b s)"
| "has (Div a b) s = (has a s \<or> has b s)"
| "has (Pow a b) s = (has a s \<or> has b s)"
| "has (Neg a) s = has a s"
| "has (Sqrt a) s = has a s"
| "has (Log a) s = has a s"
| "has (Exp a) s = has a s"
| "has (Piecewise l a b e) s = (has l s \<or> has a s \<or> has b s \<or> has e s)"

text \<open>\<^verbatim>\<open>expr.subs(s, t)\<close>: every occurrence of the symbol is replaced.\<close>

primrec subs :: "expression \<Rightarrow> sym \<Rightarrow> expression \<Rightarrow> expression" where
  "subs (Num v) s t = Num v"
| "subs (Sym u) s t = (if u = s then t else Sym u)"
| "subs (Add a b) s t = Add (subs a s t) (subs b s t)"
| "subs (Sub a b) s t = Sub (subs a s t) (subs b s t)"
| "subs (Mul a b) s t = Mul (subs a s t) (subs b s t)"
| "subs (Div a b) s t = Div (subs a s t) (subs b s t)"
| "subs (Pow a b) s t = Pow (subs a s t) (subs b s t)"
| "subs (Neg a) s t = Neg (subs a s t)"
| "subs (Sqrt a) s t = Sqrt (subs a s t)"
| "subs (Log a) s t = Log (subs a s t)"
| "subs (Exp a) s t = Exp (subs a s t)"
| "subs (Piecewise l a b e) s t =
     Piecewise (subs l s t) (subs a s t) (subs b s t) (subs e s t)"

section \<open>The RBF definition and its constructor\<close>

text \<open>
  A compiled evaluator is what \<^verbatim>\<open>ufuncify(args, expr)\<close> returns: a function of the
  argument symbols, in their order, computing the expression.
\<close>

record ufunc =
  uargs :: "sym list"
  ubody :: expression

text \<open>
  The instance attributes of \<^verbatim>\<open>RBF\<close>. Both dictionaries are keyed by derivative tuples.
\<close>

record rbf =
  expr :: expression
  tol :: "expression option"
  cache :: "int list \<rightharpoonup> ufunc"
  limits :: "int list \<rightharpoonup> expression"

text \<open>
  \<^verbatim>\<open>RBF.__init__(self, expr, tol=None, limits=None)\<close>. The checks come in the order of
  the source: foreign symbols, then the radial symbol, then the rewriting of an expression
  without \<^verbatim>\<open>eps\<close>, then the tolerance. A tolerance that is a number is \<open>Num\<close> of it
  (\<^verbatim>\<open>sympify\<close>).
\<close>

definition RBF_init ::
  "expression \<Rightarrow> expression option \<Rightarrow> (int list \<rightharpoonup> expression) option \<Rightarrow> error + rbf" where
  "RBF_init e t lims =
     (if free_symbols e - {R, EPS} \<noteq> {} then Inl InvalidSymbols
      else if \<not> has e R then Inl MissingRadialVariable
      else
        let e' = (if \<not> has e EPS then subs e R (Mul (Sym EPS) (Sym R)) else e) in
        if (case t of None \<Rightarrow> False | Some tv \<Rightarrow> free_symbols tv - {EPS} \<noteq> {})
        then Inl InvalidTolerance
        else Inr \<lparr>expr = e', tol = t, cache = Map.empty,
                  limits = (case lims of None \<Rightarrow> Map.empty | Some l \<Rightarrow> l)\<rparr>)"

section \<open>The symbolic library\<close>

text \<open>
  Differentiation and limits are computed by the symbolic library, not by the module; the
  model takes them as parameters. \<open>diff_op eng e vs\<close> is \<^verbatim>\<open>e.diff(*vs)\<close> and
  \<open>limit_op eng e v t\<close> is \<^verbatim>\<open>e.limit(v, t)\<close>; \<open>None\<close> is an exception raised by
  the library, which the module does not catch.
\<close>

record engine =
  diff_op :: "expression \<Rightarrow> sym list \<Rightarrow> expression option"
  limit_op :: "expression \<Rightarrow> sym \<Rightarrow> expression \<Rightarrow> expression option"

text \<open>
  \<^verbatim>\<open>ufuncify(args, expr)\<close>: code generation refuses an expression with a symbol that is
  not among the arguments.
\<close>

definition ufuncify :: "sym list \<Rightarrow> expression \<Rightarrow> error + ufunc" where
  "ufuncify args e =
     (if free_symbols e \<subseteq> set args then Inr \<lparr>uargs = args, ubody = e\<rparr>
      else Inl CodegenError)"

section \<open>The derivative compiler\<close>

definition x_sym :: "nat \<Rightarrow> sym list" where
  "x_sym dm = map X [0..<dm]"

definition c_sym :: "nat \<Rightarrow> sym list" where
  "c_sym dm = map C [0..<dm]"

text \<open>
  \<^verbatim>\<open>sympy.sqrt(sum((xi-ci)**2 for xi,ci in zip(x_sym,c_sym)))\<close>; Python's
  \<^verbatim>\<open>sum\<close> starts from 0 and adds from the left.
\<close>

definition r_sym :: "nat \<Rightarrow> expression" where
  "r_sym dm =
     Sqrt (foldl Add (Num 0)
       (map (\<lambda>(xi, ci). Pow (Sub (Sym xi) (Sym ci)) (Num 2)) (zip (x_sym dm) (c_sym dm))))"

text \<open>
  The loop \<^verbatim>\<open>for xi,order in zip(x_sym,diff)\<close>: an order of 0 is skipped, any other
  order differentiates by \<^verbatim>\<open>(xi,)*order\<close>, which is the empty tuple for a negative order.
\<close>

fun diff_loop :: "engine \<Rightarrow> expression \<Rightarrow> (sym \<times> int) list \<Rightarrow> error + expression" where
  "diff_loop eng e [] = Inr e"
| "diff_loop eng e ((xi, order) # rest) =
     (if order = 0 then diff_loop eng e rest
      else (case diff_op eng e (replicate (nat order) xi) of
              None \<Rightarrow> Inl DerivativeError
            | Some e' \<Rightarrow> diff_loop eng e' rest))"

text \<open>The loop \<^verbatim>\<open>for xi,ci in zip(x_sym,c_sym): lim = lim.limit(xi,ci)\<close>.\<close>

fun limit_loop :: "engine \<Rightarrow> expression \<Rightarrow> (sym \<times> sym) list \<Rightarrow> error + expression" where
  "limit_loop eng lm [] = Inr lm"
| "limit_loop eng lm ((xi, ci) # rest) =
     (case limit_op eng lm xi (Sym ci) of
        None \<Rightarrow> Inl UnsupportedLimit
      | Some l \<Rightarrow> limit_loop eng l rest)"

text \<open>
  \<^verbatim>\<open>RBF.add_diff_to_cache(self, diff)\<close>, on a tuple. The state is returned with the
  new cache entry; on an error the instance is as it was, since the cache is written in
  the last statement.
\<close>

definition add_diff_to_cache :: "engine \<Rightarrow> rbf \<Rightarrow> int list \<Rightarrow> error + rbf" where
  "add_diff_to_cache eng s d =
     (case assert_shape [length d] [None] ''diff'' of
        Inl err \<Rightarrow> Inl err
      | Inr _ \<Rightarrow>
          let dm = length d in
          (case diff_loop eng (subs (expr s) R (r_sym dm)) (zip (x_sym dm) d) of
             Inl err \<Rightarrow> Inl err
           | Inr e \<Rightarrow>
               (case (case tol s of
                        None \<Rightarrow> Inr e
                      | Some t \<Rightarrow>
                          (case (case limits s d of
                                   Some l \<Rightarrow> Inr l
                                 | None \<Rightarrow> limit_loop eng e (zip (x_sym dm) (c_sym dm))) of
                             Inl err \<Rightarrow> Inl err
                           | Inr lm \<Rightarrow> Inr (Piecewise lm (r_sym dm) t e))) of
                  Inl err \<Rightarrow> Inl err
                | Inr e' \<Rightarrow>
                    (case ufuncify (x_sym dm @ c_sym dm @ [EPS]) e' of
                       Inl err \<Rightarrow> Inl err
                     | Inr func \<Rightarrow> Inr (s\<lparr>cache := (cache s)(d \<mapsto> func)\<rparr>)))))"

section \<open>Arrays\<close>

text \<open>
  A numpy array: its shape and its items in row-major order. The items of a float array
  are finite floats, taken as reals; an item of a result is \<open>None\<close> when it is not a
  finite number (\<^verbatim>\<open>nan\<close>, \<^verbatim>\<open>inf\<close>).
\<close>

record 'a ndarray =
  shape :: "nat list"
  items :: "'a list"

definition np_full :: "nat \<Rightarrow> real \<Rightarrow> real ndarray" where
  "np_full n v = \<lparr>shape = [n], items = replicate n v\<rparr>"

text \<open>\<^verbatim>\<open>a.T\<close> of a rank-2 array.\<close>

definition transpose2 :: "'a ndarray \<Rightarrow> 'a ndarray" where
  "transpose2 a =
     (let n = shape a ! 0; d = shape a ! 1
      in \<lparr>shape = [d, n],
          items = concat (map (\<lambda>k. map (\<lambda>i. items a ! (i * d + k)) [0..<n]) [0..<d])\<rparr>)"

text \<open>\<^verbatim>\<open>a[:,:,None]\<close> and \<^verbatim>\<open>a[:,None,:]\<close> of a rank-2 array.\<close>

definition new_axis_last :: "'a ndarray \<Rightarrow> 'a ndarray" where
  "new_axis_last a = \<lparr>shape = [shape a ! 0, shape a ! 1, 1], items = items a\<rparr>"

definition new_axis_mid :: "'a ndarray \<Rightarrow> 'a ndarray" where
  "new_axis_mid a = \<lparr>shape = [shape a ! 0, 1, shape a ! 1], items = items a\<rparr>"

text \<open>\<^verbatim>\<open>tuple(a)\<close>: the sub-arrays along the first axis.\<close>

definition tuple_of_array :: "'a ndarray \<Rightarrow> 'a ndarray list" where
  "tuple_of_array a =
     (let sz = prod_list (tl (shape a))
      in map (\<lambda>k. \<lparr>shape = tl (shape a), items = take sz (drop (k * sz) (items a))\<rparr>)
           [0..<hd (shape a)])"

subsection \<open>Broadcasting\<close>

text \<open>
  Shapes are aligned at their last axis; two lengths agree when they are equal or one of
  them is 1.
\<close>

fun broadcast_rev :: "nat list \<Rightarrow> nat list \<Rightarrow> nat list option" where
  "broadcast_rev [] ys = Some ys"
| "broadcast_rev (x # xs) [] = Some (x # xs)"
| "broadcast_rev (x # xs) (y # ys) =
     (case broadcast_rev xs ys of
        None \<Rightarrow> None
      | Some zs \<Rightarrow>
          if x = 1 then Some (y # zs)
          else if y = 1 \<or> x = y then Some (x # zs)
          else None)"

definition broadcast2 :: "nat list \<Rightarrow> nat list \<Rightarrow> nat list option" where
  "broadcast2 a b = map_option rev (broadcast_rev (rev a) (rev b))"

fun broadcast_shapes :: "nat list list \<Rightarrow> nat list option" where
  "broadcast_shapes [] = Some []"
| "broadcast_shapes (s # ss) =
     (case broadcast_shapes ss of None \<Rightarrow> None | Some t \<Rightarrow> broadcast2 s t)"

text \<open>All indices of a shape, in row-major order, and the offset of an index.\<close>

fun indices :: "nat list \<Rightarrow> nat list list" where
  "indices [] = [[]]"
| "indices (n # ns) = concat (map (\<lambda>i. map ((#) i) (indices ns)) [0..<n])"

definition flat_index :: "nat list \<Rightarrow> nat list \<Rightarrow> nat" where
  "flat_index shp idx = foldl (\<lambda>acc (n, i). acc * n + i) 0 (zip shp idx)"

text \<open>
  The item of an array that takes part in the result at an index of the broadcast shape:
  the leading axes the array does not have are dropped, and an axis of length 1 is read
  at 0.
\<close>

definition bget :: "'a ndarray \<Rightarrow> nat list \<Rightarrow> 'a" where
  "bget a idx =
     (let own = drop (length idx - length (shape a)) idx;
          clipped = map (\<lambda>(n, i). if n = 1 then 0 else i) (zip (shape a) own)
      in items a ! flat_index (shape a) clipped)"

section \<open>Numeric evaluation\<close>

definition lift2 ::
  "(real \<Rightarrow> real \<Rightarrow> real option) \<Rightarrow> real option \<Rightarrow> real option \<Rightarrow> real option" where
  "lift2 f a b =
     (case a of None \<Rightarrow> None | Some u \<Rightarrow> (case b of None \<Rightarrow> None | Some v \<Rightarrow> f u v))"

definition pow_real :: "real \<Rightarrow> real \<Rightarrow> real option" where
  "pow_real a b =
     (if b = of_int \<lfloor>b\<rfloor>
      then (if 0 \<le> b then Some (a ^ nat \<lfloor>b\<rfloor>)
            else if a = 0 then None
            else Some (1 / a ^ nat (- \<lfloor>b\<rfloor>)))
      else if 0 < a then Some (a powr b)
      else if a = 0 \<and> 0 < b then Some 0
      else None)"

text \<open>
  The value the generated code computes for an expression, given the values of its
  arguments. A comparison with a value that is not a finite number is false, so the
  piecewise form falls to its last branch.
\<close>

fun eval_expr :: "(sym \<Rightarrow> real option) \<Rightarrow> expression \<Rightarrow> real option" where
  "eval_expr env (Num v) = Some v"
| "eval_expr env (Sym s) = env s"
| "eval_expr env (Add a b) = lift2 (\<lambda>u v. Some (u + v)) (eval_expr env a) (eval_expr env b)"
| "eval_expr env (Sub a b) = lift2 (\<lambda>u v. Some (u - v)) (eval_expr env a) (eval_expr env b)"
| "eval_expr env (Mul a b) = lift2 (\<lambda>u v. Some (u * v)) (eval_expr env a) (eval_expr env b)"
| "eval_expr env (Div a b) =
     lift2 (\<lambda>u v. if v = 0 then None else Some (u / v)) (eval_expr env a) (eval_expr env b)"
| "eval_expr env (Pow a b) = lift2 pow_real (eval_expr env a) (eval_expr env b)"
| "eval_expr env (Neg a) = map_option uminus (eval_expr env a)"
| "eval_expr env (Sqrt a) =
     (case eval_expr env a of
        None \<Rightarrow> None
      | Some u \<Rightarrow> if 0 \<le> u then Some (sqrt u) else None)"
| "eval_expr env (Log a) =
     (case eval_expr env a of
        None \<Rightarrow> None
      | Some u \<Rightarrow> if 0 < u then Some (ln u) else None)"
| "eval_expr env (Exp a) = map_option exp (eval_expr env a)"
| "eval_expr env (Piecewise l a b e) =
     (case eval_expr env a of
        None \<Rightarrow> eval_expr env e
      | Some u \<Rightarrow>
          (case eval_expr env b of
             None \<Rightarrow> eval_expr env e
           | Some v \<Rightarrow> if u < v then eval_expr env l else eval_expr env e))"

text \<open>
  Calling a compiled evaluator on arrays: the arguments are broadcast against each other
  and the expression is computed item by item. A wrong number of arguments and shapes
  that do not broadcast raise in numpy.
\<close>

definition ufunc_call :: "ufunc \<Rightarrow> real ndarray list \<Rightarrow> error + real option ndarray" where
  "ufunc_call f args =
     (if length args \<noteq> length (uargs f) then Inl CallError
      else (case broadcast_shapes (map shape args) of
              None \<Rightarrow> Inl CallError
            | Some shp \<Rightarrow>
                Inr \<lparr>shape = shp,
                     items = map (\<lambda>idx. eval_expr
                                     (map_of (zip (uargs f) (map (\<lambda>a. bget a idx) args)))
                                     (ubody f))
                               (indices shp)\<rparr>))"

section \<open>Evaluation\<close>

text \<open>
  The \<^verbatim>\<open>diff\<close> argument is any sequence of integers; \<^verbatim>\<open>tuple(diff)\<close> makes it a
  tuple. \<^verbatim>\<open>eps\<close> is a scalar or an array.
\<close>

datatype pyseq = PyList "int list" | PyTuple "int list"

fun tuple_of :: "pyseq \<Rightarrow> int list" where
  "tuple_of (PyList ds) = ds"
| "tuple_of (PyTuple ds) = ds"

datatype eps_arg = EpsScalar real | EpsArray "real ndarray"

text \<open>
  \<^verbatim>\<open>RBF.__call__(self, x, c, eps, diff)\<close>. The result comes with the instance as the
  call leaves it, also when the call raises. The arrays are float arrays already, so
  \<^verbatim>\<open>np.asarray\<close> leaves them as they are. \<^verbatim>\<open>self.cache[diff]\<close> raises when the
  tuple is not in the cache, which cannot happen after \<^verbatim>\<open>add_diff_to_cache\<close> has
  returned.
\<close>

definition call ::
  "engine \<Rightarrow> rbf \<Rightarrow> real ndarray \<Rightarrow> real ndarray \<Rightarrow> eps_arg \<Rightarrow> pyseq option
     \<Rightarrow> (error + real option ndarray) \<times> rbf" where
  "call eng s x c eps diff =
     (case assert_shape (shape x) [None, None] ''x'' of
        Inl err \<Rightarrow> (Inl err, s)
      | Inr _ \<Rightarrow>
     (case assert_shape (shape c) [None, Some (shape x ! 1)] ''c'' of
        Inl err \<Rightarrow> (Inl err, s)
      | Inr _ \<Rightarrow>
     (let eps' = (case eps of EpsScalar v \<Rightarrow> np_full (shape c ! 0) v | EpsArray a \<Rightarrow> a) in
     (case assert_shape (shape eps') [Some (shape c ! 0)] ''eps'' of
        Inl err \<Rightarrow> (Inl err, s)
      | Inr _ \<Rightarrow>
     (let d = (case diff of None \<Rightarrow> replicate (shape x ! 1) 0 | Some ds \<Rightarrow> tuple_of ds) in
     (case assert_shape [length d] [Some (shape x ! 1)] ''diff'' of
        Inl err \<Rightarrow> (Inl err, s)
      | Inr _ \<Rightarrow>
     (let x' = new_axis_last (transpose2 x);
          c' = new_axis_mid (transpose2 c) in
     (case (if cache s d = None then add_diff_to_cache eng s d else Inr s) of
        Inl err \<Rightarrow> (Inl err, s)
      | Inr s' \<Rightarrow>
     (case cache s' d of
        None \<Rightarrow> (Inl CallError, s')
      | Some f \<Rightarrow>
          (ufunc_call f (tuple_of_array x' @ tuple_of_array c' @ [eps']), s'))))))))))"

section \<open>Arrays in memory\<close>

text \<open>
  The arrays of a call once more, now where they live. A store holds buffers, one at each
  address; an item of a buffer is a finite float or \<open>None\<close> (\<^verbatim>\<open>nan\<close>, \<^verbatim>\<open>inf\<close>).
  An array object is a view: the address of its buffer and, for each of its items in
  row-major order, the position of that item in the buffer. Two views with the same
  address share their items.
\<close>

type_synonym store = "real option list list"

record view =
  base :: nat
  window :: "nat ndarray"

definition peek :: "store \<Rightarrow> nat \<Rightarrow> nat \<Rightarrow> real option" where
  "peek st a p = (if a < length st \<and> p < length (st ! a) then st ! a ! p else None)"

definition amap :: "('a \<Rightarrow> 'b) \<Rightarrow> 'a ndarray \<Rightarrow> 'b ndarray" where
  "amap g a = \<lparr>shape = shape a, items = map g (items a)\<rparr>"

text \<open>The array that a view shows in a store.\<close>

definition read_view :: "store \<Rightarrow> view \<Rightarrow> real option ndarray" where
  "read_view st v = amap (peek st (base v)) (window v)"

text \<open>
  \<^verbatim>\<open>a.T\<close>, \<^verbatim>\<open>a[:,:,None]\<close> and \<^verbatim>\<open>a[:,None,:]\<close> return views of the buffer of
  \<^verbatim>\<open>a\<close>: the positions are rearranged and no item is copied. The items of
  \<^verbatim>\<open>tuple(a)\<close> are views of that buffer as well.
\<close>

definition on_window :: "(nat ndarray \<Rightarrow> nat ndarray) \<Rightarrow> view \<Rightarrow> view" where
  "on_window f v = v\<lparr>window := f (window v)\<rparr>"

definition tuple_of_view :: "view \<Rightarrow> view list" where
  "tuple_of_view v = map (\<lambda>w. \<lparr>base = base v, window = w\<rparr>) (tuple_of_array (window v))"

text \<open>\<^verbatim>\<open>np.full(n, v, dtype=float)\<close> allocates a buffer and fills it.\<close>

definition np_full_in_store :: "store \<Rightarrow> nat \<Rightarrow> real \<Rightarrow> view \<times> store" where
  "np_full_in_store st n v =
     (\<lparr>base = length st, window = \<lparr>shape = [n], items = [0..<n]\<rparr>\<rparr>,
      st @ [replicate n (Some v)])"

text \<open>
  The computation of a compiled evaluator, as in \<open>ufunc_call\<close>, on arguments whose
  items may be non-finite.
\<close>

definition ufunc_apply :: "ufunc \<Rightarrow> real option ndarray list \<Rightarrow> error + real option ndarray" where
  "ufunc_apply f args =
     (if length args \<noteq> length (uargs f) then Inl CallError
      else (case broadcast_shapes (map shape args) of
              None \<Rightarrow> Inl CallError
            | Some shp \<Rightarrow>
                Inr \<lparr>shape = shp,
                     items = map (\<lambda>idx. eval_expr
                                     (\<lambda>v. case map_of (zip (uargs f) (map (\<lambda>a. bget a idx) args)) v of
                                             None \<Rightarrow> None
                                           | Some u \<Rightarrow> u)
                                     (ubody f))
                               (indices shp)\<rparr>))"

text \<open>
  The compiled evaluator is a numpy ufunc with one output, and \<^verbatim>\<open>__call__\<close> calls
  it with its inputs only, \<^verbatim>\<open>self.cache[diff](*args)\<close>. It reads the items of the
  views it is given, allocates the array it returns, uninitialised, and writes the
  results into it. When the call raises, nothing is allocated.
\<close>

definition ufunc_call_in_store :: "ufunc \<Rightarrow> view list \<Rightarrow> store \<Rightarrow> (error + view) \<times> store" where
  "ufunc_call_in_store f vs st =
     (case ufunc_apply f (map (read_view st) vs) of
        Inl err \<Rightarrow> (Inl err, st)
      | Inr out \<Rightarrow>
          let a = length st;
              st1 = st @ [replicate (length (items out)) None];
              st2 = st1[a := items out]
          in (Inr \<lparr>base = a,
                    window = \<lparr>shape = shape out, items = [0..<length (items out)]\<rparr>\<rparr>,
              st2))"

text \<open>\<^verbatim>\<open>eps\<close> is a float or an array of the caller.\<close>

datatype eps_ref = EpsFloat real | EpsView view

text \<open>
  \<^verbatim>\<open>RBF.__call__(self, x, c, eps, diff)\<close> on arrays in memory, statement by
  statement as \<open>call\<close>. \<^verbatim>\<open>np.asarray\<close> of a float array is the array itself, so
  \<^verbatim>\<open>x\<close>, \<^verbatim>\<open>c\<close> and a non-scalar \<^verbatim>\<open>eps\<close> stay the arrays of the caller, and the
  compiled evaluator is handed views of their buffers. The call returns its result, a
  view or an error, with the instance and the store as it leaves them.
\<close>

definition call_in_store ::
  "engine \<Rightarrow> rbf \<Rightarrow> store \<Rightarrow> view \<Rightarrow> view \<Rightarrow> eps_ref \<Rightarrow> pyseq option
     \<Rightarrow> (error + view) \<times> rbf \<times> store" where
  "call_in_store eng s st x c eps diff =
     (case assert_shape (shape (window x)) [None, None] ''x'' of
        Inl err \<Rightarrow> (Inl err, s, st)
      | Inr _ \<Rightarrow>
     (case assert_shape (shape (window c)) [None, Some (shape (window x) ! 1)] ''c'' of
        Inl err \<Rightarrow> (Inl err, s, st)
      | Inr _ \<Rightarrow>
     (case (case eps of
              EpsFloat v \<Rightarrow> np_full_in_store st (shape (window c) ! 0) v
            | EpsView a \<Rightarrow> (a, st)) of
        (eps', st1) \<Rightarrow>
     (case assert_shape (shape (window eps')) [Some (shape (window c) ! 0)] ''eps'' of
        Inl err \<Rightarrow> (Inl err, s, st1)
      | Inr _ \<Rightarrow>
     (let d = (case diff of None \<Rightarrow> replicate (shape (window x) ! 1) 0 | Some ds \<Rightarrow> tuple_of ds) in
     (case assert_shape [length d] [Some (shape (window x) ! 1)] ''diff'' of
        Inl err \<Rightarrow> (Inl err, s, st1)
      | Inr _ \<Rightarrow>
     (let x' = on_window new_axis_last (on_window transpose2 x);
          c' = on_window new_axis_mid (on_window transpose2 c) in
     (case (if cache s d = None then add_diff_to_cache eng s d else Inr s) of
        Inl err \<Rightarrow> (Inl err, s, st1)
      | Inr s' \<Rightarrow>
     (case cache s' d of
        None \<Rightarrow> (Inl CallError, s', st1)
      | Some f \<Rightarrow>
          (case ufunc_call_in_store f (tuple_of_view x' @ tuple_of_view c' @ [eps']) st1 of
             (r, st2) \<Rightarrow> (r, s', st2)))))))))))"

section \<open>The predefined instances \<open>phs1\<close> and \<open>ga\<close>\<close>

text \<open>
  Modelled from the spec: \<^verbatim>\<open>rbf.poly.powers\<close>, which the module imports, is not among
  the sources. \<open>powers order dm\<close> lists the multi-indices of \<open>dm\<close> axes whose
  entries sum to at most \<open>order\<close>; for order 0 that is the all-zeros multi-index alone.
\<close>

fun powers :: "nat \<Rightarrow> nat \<Rightarrow> int list list" where
  "powers order 0 = [[]]"
| "powers order (Suc dm) =
     concat (map (\<lambda>k. map ((#) (int k)) (powers (order - k) dm)) [0..<Suc order])"

text \<open>A loop \<^verbatim>\<open>for i in powers(0,1): phs1.limits[tuple(i)] = 0\<close>, on the list of its keys.\<close>

definition set_limits :: "int list list \<Rightarrow> rbf \<Rightarrow> rbf" where
  "set_limits keys s = fold (\<lambda>i s'. s'\<lparr>limits := (limits s')(i \<mapsto> Num 0)\<rparr>) keys s"

text \<open>
  \<^verbatim>\<open>phs1 = RBF(_EPS*_R)\<close>, followed by \<^verbatim>\<open>phs1.tol = 1e-10\<close> and the three loops over
  \<^verbatim>\<open>powers(0,1)\<close>, \<^verbatim>\<open>powers(0,2)\<close> and \<^verbatim>\<open>powers(0,3)\<close>. The constructor
  accepts the expression (lemma \<open>phs1_constructed\<close>), so \<open>projr\<close> is the instance
  it returns.
\<close>

definition phs1_setup :: "rbf \<Rightarrow> rbf" where
  "phs1_setup s =
     set_limits (powers 0 3) (set_limits (powers 0 2) (set_limits (powers 0 1)
       (s\<lparr>tol := Some (Num (1 / 10 ^ 10))\<rparr>)))"

definition phs1 :: rbf where
  "phs1 = phs1_setup (projr (RBF_init (Mul (Sym EPS) (Sym R)) None None))"

text \<open>\<^verbatim>\<open>ga = RBF(sympy.exp(-(_EPS*_R)**2))\<close>, which has no tolerance.\<close>

definition ga :: rbf where
  "ga = projr (RBF_init (Exp (Neg (Pow (Mul (Sym EPS) (Sym R)) (Num 2)))) None None)"

section \<open>Notions for stating the properties\<close>

text \<open>
  The derivative tuple a call works with: all zeros, one per column of \<open>x\<close>, when
  \<^verbatim>\<open>diff\<close> is omitted, and \<^verbatim>\<open>tuple(diff)\<close> otherwise. The shape parameter as the
  array the call makes of it.
\<close>

definition key_of :: "pyseq option \<Rightarrow> nat \<Rightarrow> int list" where
  "key_of diff dm = (case diff of None \<Rightarrow> replicate dm 0 | Some ds \<Rightarrow> tuple_of ds)"

definition eps_array :: "eps_arg \<Rightarrow> nat \<Rightarrow> real ndarray" where
  "eps_array eps m = (case eps of EpsScalar v \<Rightarrow> np_full m v | EpsArray a \<Rightarrow> a)"

text \<open>The arguments that pass the four shape checks of \<^verbatim>\<open>__call__\<close>.\<close>

definition valid_args ::
  "real ndarray \<Rightarrow> real ndarray \<Rightarrow> eps_arg \<Rightarrow> pyseq option \<Rightarrow> bool" where
  "valid_args x c eps diff =
     (length (shape x) = 2 \<and> length (shape c) = 2 \<and> shape c ! 1 = shape x ! 1 \<and>
      shape (eps_array eps (shape c ! 0)) = [shape c ! 0] \<and>
      length (key_of diff (shape x ! 1)) = shape x ! 1)"

text \<open>
  The arrays the compiled evaluator is called with: one per coordinate, holding that
  coordinate of every point, in the given shape.
\<close>

definition columns :: "nat \<Rightarrow> nat list \<Rightarrow> real ndarray \<Rightarrow> real ndarray list" where
  "columns dm shp a =
     map (\<lambda>k. \<lparr>shape = shp, items = map (\<lambda>i. items a ! (i * dm + k)) [0..<hd (shape a)]\<rparr>)
       [0..<dm]"

definition call_args :: "real ndarray \<Rightarrow> real ndarray \<Rightarrow> eps_arg \<Rightarrow> real ndarray list" where
  "call_args x c eps =
     tuple_of_array (new_axis_last (transpose2 x)) @
     tuple_of_array (new_axis_mid (transpose2 c)) @
     [eps_array eps (shape c ! 0)]"

text \<open>
  The evaluator \<^verbatim>\<open>add_diff_to_cache\<close> stores for a tuple, and the instances whose cache
  holds nothing else: the cache is written by \<^verbatim>\<open>add_diff_to_cache\<close> alone.
\<close>

definition compiled :: "engine \<Rightarrow> rbf \<Rightarrow> int list \<Rightarrow> error + ufunc" where
  "compiled eng s d =
     (case add_diff_to_cache eng s d of
        Inl err \<Rightarrow> Inl err
      | Inr s' \<Rightarrow> (case cache s' d of None \<Rightarrow> Inl CallError | Some f \<Rightarrow> Inr f))"

definition compiled_entries :: "engine \<Rightarrow> rbf \<Rightarrow> bool" where
  "compiled_entries eng s = (\<forall>d f. cache s d = Some f \<longrightarrow> compiled eng s d = Inr f)"

text \<open>An instance after any number of calls.\<close>

inductive evolves :: "engine \<Rightarrow> rbf \<Rightarrow> rbf \<Rightarrow> bool" for eng :: engine and s0 :: rbf where
  start: "evolves eng s0 s0"
| step: "evolves eng s0 s \<Longrightarrow> evolves eng s0 (snd (call eng s x c eps diff))"

text \<open>
  The array arguments of a call in memory: \<open>x\<close>, \<open>c\<close>, and \<open>eps\<close> when it is an
  array.
\<close>

definition eps_views :: "eps_ref \<Rightarrow> view list" where
  "eps_views eps = (case eps of EpsFloat v \<Rightarrow> [] | EpsView a \<Rightarrow> [a])"

text \<open>
  A view of a store is a given array of finite floats: its buffer exists, it shows the
  items of the array, and the array has as many items as its shape says.
\<close>

definition represents :: "store \<Rightarrow> view \<Rightarrow> real ndarray \<Rightarrow> bool" where
  "represents st v a =
     (base v < length st \<and> read_view st v = amap Some a \<and>
      length (items a) = prod_list (shape a))"

definition eps_represents :: "store \<Rightarrow> eps_ref \<Rightarrow> eps_arg \<Rightarrow> bool" where
  "eps_represents st er eps =
     (case er of
        EpsFloat v \<Rightarrow> eps = EpsScalar v
      | EpsView ev \<Rightarrow> (case eps of EpsScalar v \<Rightarrow> False | EpsArray e \<Rightarrow> represents st ev e))"

subsection \<open>An engine for concrete runs\<close>

text \<open>
  The properties hold for every engine. Concrete runs use this one: differentiation by
  the textbook rules, and the limit by substitution, which is the limit where the
  expression is continuous.
\<close>

fun deriv :: "expression \<Rightarrow> sym \<Rightarrow> expression" where
  "deriv (Num v) x = Num 0"
| "deriv (Sym s) x = Num (if s = x then 1 else 0)"
| "deriv (Add a b) x = Add (deriv a x) (deriv b x)"
| "deriv (Sub a b) x = Sub (deriv a x) (deriv b x)"
| "deriv (Mul a b) x = Add (Mul (deriv a x) b) (Mul a (deriv b x))"
| "deriv (Div a b) x = Div (Sub (Mul (deriv a x) b) (Mul a (deriv b x))) (Pow b (Num 2))"
| "deriv (Pow a b) x =
     Mul (Pow a b) (Add (Mul (deriv b x) (Log a)) (Div (Mul b (deriv a x)) a))"
| "deriv (Neg a) x = Neg (deriv a x)"
| "deriv (Sqrt a) x = Div (deriv a x) (Mul (Num 2) (Sqrt a))"
| "deriv (Log a) x = Div (deriv a x) a"
| "deriv (Exp a) x = Mul (Exp a) (deriv a x)"
| "deriv (Piecewise l a b e) x = Piecewise (deriv l x) a b (deriv e x)"

definition sample_engine :: engine where
  "sample_engine =
     \<lparr>diff_op = (\<lambda>e vs. Some (fold (\<lambda>v e'. deriv e' v) vs e)),
      limit_op = (\<lambda>e v t. Some (subs e v t))\<rparr>"

subsection \<open>Concrete inputs\<close>

text \<open>
  A vector, two points and a centre on the line, two points and a centre in the plane,
  and \<open>phs1\<close> after one evaluation on the line.
\<close>

definition vector_2 :: "real ndarray" where
  "vector_2 = \<lparr>shape = [2], items = [0, 1]\<rparr>"

definition points_1d :: "real ndarray" where
  "points_1d = \<lparr>shape = [2, 1], items = [0, 1]\<rparr>"

definition centre_1d :: "real ndarray" where
  "centre_1d = \<lparr>shape = [1, 1], items = [0]\<rparr>"

definition points_2d :: "real ndarray" where
  "points_2d = \<lparr>shape = [2, 2], items = [0, 0, 1, 2]\<rparr>"

definition centre_2d :: "real ndarray" where
  "centre_2d = \<lparr>shape = [1, 2], items = [1, 2]\<rparr>"

definition phs1_used :: rbf where
  "phs1_used = snd (call sample_engine phs1 points_1d centre_1d (EpsScalar 1) None)"

text \<open>
  A store with three arrays of a caller: the two points and the centre on the line, and
  a shape parameter for the centre.
\<close>

definition caller_store :: store where
  "caller_store = [[Some 0, Some 1], [Some 0], [Some 1]]"

definition points_view :: view where
  "points_view = \<lparr>base = 0, window = \<lparr>shape = [2, 1], items = [0, 1]\<rparr>\<rparr>"

definition centre_view :: view where
  "centre_view = \<lparr>base = 1, window = \<lparr>shape = [1, 1], items = [0]\<rparr>\<rparr>"

definition eps_view :: view where
  "eps_view = \<lparr>base = 2, window = \<lparr>shape = [1], items = [0]\<rparr>\<rparr>"

section \<open>Shape validation, case by case\<close>

lemma assert_shape_any2:
  "assert_shape sh [None, None] l =
     (if length sh = 2 then Inr () else Inl (ShapeMismatch (WrongRank l (length sh) 2)))"
proof (cases sh)
  case Nil
  then show ?thesis by (simp add: assert_shape_def)
next
  case (Cons a t)
  then show ?thesis by (cases t; cases "tl t") (auto simp: assert_shape_def)
qed

lemma assert_shape_second:
  "assert_shape sh [None, Some k] l =
     (if length sh \<noteq> 2 then Inl (ShapeMismatch (WrongRank l (length sh) 2))
      else if sh ! 1 \<noteq> k then Inl (ShapeMismatch (WrongLength 1 l (sh ! 1) k))
      else Inr ())"
proof (cases sh)
  case Nil
  then show ?thesis by (simp add: assert_shape_def)
next
  case (Cons a t)
  then show ?thesis by (cases t; cases "tl t") (auto simp: assert_shape_def)
qed

lemma assert_shape_first:
  "assert_shape sh [Some k] l =
     (if length sh \<noteq> 1 then Inl (ShapeMismatch (WrongRank l (length sh) 1))
      else if sh ! 0 \<noteq> k then Inl (ShapeMismatch (WrongLength 0 l (sh ! 0) k))
      else Inr ())"
  by (cases sh; cases "tl sh") (auto simp: assert_shape_def)

lemma assert_shape_any1:
  "assert_shape sh [None] l =
     (if length sh = 1 then Inr () else Inl (ShapeMismatch (WrongRank l (length sh) 1)))"
  by (cases sh; cases "tl sh") (auto simp: assert_shape_def)

lemmas assert_shape_simps =
  assert_shape_any2 assert_shape_second assert_shape_first assert_shape_any1

lemma singleton_shape: "(sh = [k]) = (length sh = Suc 0 \<and> sh ! 0 = k)"
  by (cases sh) auto

section \<open>The structure of a call\<close>

lemma key_of_simps [simp]:
  "key_of None dm = replicate dm 0" "key_of (Some ds) dm = tuple_of ds"
  by (simp_all add: key_of_def)

lemma call_invalid:
  "\<not> valid_args x c eps diff \<Longrightarrow> \<exists>m. call eng s x c eps diff = (Inl (ShapeMismatch m), s)"
  unfolding valid_args_def call_def key_of_def eps_array_def Let_def
  by (auto simp: assert_shape_simps singleton_shape split: eps_arg.splits option.splits)

lemma call_invalid_any_engine:
  "\<not> valid_args x c eps diff \<Longrightarrow> call eng s x c eps diff = call eng' s x c eps diff"
  unfolding valid_args_def call_def key_of_def eps_array_def Let_def
  by (auto simp: assert_shape_simps singleton_shape split: eps_arg.splits option.splits)

lemma call_valid:
  assumes "valid_args x c eps diff"
  shows "call eng s x c eps diff =
     (let d = key_of diff (shape x ! 1) in
      case (if cache s d = None then add_diff_to_cache eng s d else Inr s) of
        Inl err \<Rightarrow> (Inl err, s)
      | Inr s' \<Rightarrow>
         (case cache s' d of
            None \<Rightarrow> (Inl CallError, s')
          | Some f \<Rightarrow> (ufunc_call f (call_args x c eps), s')))"
  using assms
  unfolding valid_args_def call_def key_of_def eps_array_def call_args_def Let_def
  by (auto simp: assert_shape_simps singleton_shape
      split: eps_arg.splits option.splits sum.splits)

lemma add_diff_to_cache_Inr:
  assumes "add_diff_to_cache eng s d = Inr s'"
  shows "\<exists>f. s' = s\<lparr>cache := (cache s)(d \<mapsto> f)\<rparr> \<and>
             uargs f = x_sym (length d) @ c_sym (length d) @ [EPS]"
  using assms
  unfolding add_diff_to_cache_def Let_def ufuncify_def
  by (auto split: sum.splits option.splits if_splits)

lemma call_snd:
  "snd (call eng s x c eps diff) = s \<or>
   (cache s (key_of diff (shape x ! 1)) = None \<and>
    add_diff_to_cache eng s (key_of diff (shape x ! 1)) = Inr (snd (call eng s x c eps diff)))"
proof (cases "valid_args x c eps diff")
  case False
  from call_invalid [OF this] show ?thesis by (metis snd_conv)
next
  case True
  show ?thesis
  proof (cases "cache s (key_of diff (shape x ! 1))")
    case (Some f)
    then show ?thesis by (simp add: call_valid [OF True] Let_def)
  next
    case None
    show ?thesis
    proof (cases "add_diff_to_cache eng s (key_of diff (shape x ! 1))")
      case (Inl e)
      then show ?thesis using None by (simp add: call_valid [OF True] Let_def)
    next
      case (Inr s')
      from add_diff_to_cache_Inr [OF Inr] obtain f where
        "s' = s\<lparr>cache := (cache s)(key_of diff (shape x ! 1) \<mapsto> f)\<rparr>" by blast
      then show ?thesis using None Inr by (auto simp add: call_valid [OF True] Let_def)
    qed
  qed
qed

lemma call_snd_update:
  "snd (call eng s x c eps diff) = s \<or>
   (\<exists>f. cache s (key_of diff (shape x ! 1)) = None \<and>
        snd (call eng s x c eps diff) =
          s\<lparr>cache := (cache s)(key_of diff (shape x ! 1) \<mapsto> f)\<rparr>)"
  using call_snd [of eng s x c eps diff] add_diff_to_cache_Inr by metis

lemma call_hit:
  assumes "valid_args x c eps diff" "cache s (key_of diff (shape x ! 1)) = Some f"
  shows "call eng s x c eps diff = (ufunc_call f (call_args x c eps), s)"
  using assms(2) by (simp add: call_valid [OF assms(1)] Let_def)

lemma call_Inr_cached:
  assumes "call eng s x c eps diff = (Inr out, s')"
  shows "valid_args x c eps diff \<and> cache s' (key_of diff (shape x ! 1)) \<noteq> None"
proof -
  have v: "valid_args x c eps diff"
    using call_invalid [of x c eps diff eng s] assms by auto
  have "cache s' (key_of diff (shape x ! 1)) \<noteq> None"
    using assms unfolding call_valid [OF v] Let_def
    by (auto split: sum.splits option.splits if_splits)
  with v show ?thesis by simp
qed


section \<open>The attributes of the predefined instances\<close>

lemma powers_zero: "powers 0 dm = [replicate dm 0]"
  by (induction dm) simp_all

lemma phs1_constructed:
  "RBF_init (Mul (Sym EPS) (Sym R)) None None =
     Inr \<lparr>expr = Mul (Sym EPS) (Sym R), tol = None, cache = Map.empty, limits = Map.empty\<rparr>"
  by (simp add: RBF_init_def)

lemma phs1_fields:
  "expr phs1 = Mul (Sym EPS) (Sym R)"
  "tol phs1 = Some (Num (1 / 10 ^ 10))"
  "cache phs1 = Map.empty"
  "limits phs1 = [[0] \<mapsto> Num 0, [0, 0] \<mapsto> Num 0, [0, 0, 0] \<mapsto> Num 0]"
  by (simp_all add: phs1_def phs1_setup_def set_limits_def powers_zero phs1_constructed
      numeral_2_eq_2 numeral_3_eq_3)

lemma ga_fields:
  "expr ga = Exp (Neg (Pow (Mul (Sym EPS) (Sym R)) (Num 2)))"
  "tol ga = None"
  "cache ga = Map.empty"
  "limits ga = Map.empty"
  by (simp_all add: ga_def RBF_init_def)

lemma coordinate_symbols:
  "x_sym 0 = []" "c_sym 0 = []"
  "x_sym (Suc 0) = [X 0]" "c_sym (Suc 0) = [C 0]"
  "x_sym (Suc (Suc 0)) = [X 0, X 1]" "c_sym (Suc (Suc 0)) = [C 0, C 1]"
  by (simp_all add: x_sym_def c_sym_def)

section \<open>Compiled evaluators and the cache\<close>

lemma add_diff_compiled:
  "add_diff_to_cache eng s d =
     (case compiled eng s d of
        Inl err \<Rightarrow> Inl err
      | Inr f \<Rightarrow> Inr (s\<lparr>cache := (cache s)(d \<mapsto> f)\<rparr>))"
proof (cases "add_diff_to_cache eng s d")
  case (Inl e)
  then show ?thesis by (simp add: compiled_def)
next
  case (Inr s')
  from add_diff_to_cache_Inr [OF Inr] show ?thesis
    using Inr by (auto simp: compiled_def)
qed

lemma compiled_arity:
  assumes "compiled eng s d = Inr f"
  shows "uargs f = x_sym (length d) @ c_sym (length d) @ [EPS]"
proof -
  from assms obtain s' where s': "add_diff_to_cache eng s d = Inr s'" "cache s' d = Some f"
    by (auto simp: compiled_def split: sum.splits option.splits)
  from add_diff_to_cache_Inr [OF s'(1)] s'(2) show ?thesis by auto
qed

lemma compiled_cache_irrelevant: "compiled eng (s\<lparr>cache := m\<rparr>) d = compiled eng s d"
  unfolding compiled_def add_diff_to_cache_def Let_def
  by (auto split: sum.splits option.splits)

lemma compiled_entries_call:
  assumes "compiled_entries eng s"
  shows "compiled_entries eng (snd (call eng s x c eps diff))"
proof -
  let ?k = "key_of diff (shape x ! 1)"
  from call_snd [of eng s x c eps diff] show ?thesis
  proof
    assume "snd (call eng s x c eps diff) = s"
    with assms show ?thesis by simp
  next
    assume a: "cache s ?k = None \<and>
      add_diff_to_cache eng s ?k = Inr (snd (call eng s x c eps diff))"
    then obtain f where f: "compiled eng s ?k = Inr f"
      "snd (call eng s x c eps diff) = s\<lparr>cache := (cache s)(?k \<mapsto> f)\<rparr>"
      by (auto simp: add_diff_compiled split: sum.splits)
    show ?thesis
      unfolding f(2) compiled_entries_def
      using assms f(1) by (auto simp: compiled_cache_irrelevant compiled_entries_def)
  qed
qed

lemma evolves_fields:
  "evolves eng s0 s \<Longrightarrow> expr s = expr s0 \<and> tol s = tol s0 \<and> limits s = limits s0"
proof (induction rule: evolves.induct)
  case start
  show ?case by simp
next
  case (step s x c eps diff)
  then show ?case using call_snd_update [of eng s x c eps diff] by auto
qed

lemma evolves_compiled_entries:
  "evolves eng s0 s \<Longrightarrow> compiled_entries eng s0 \<Longrightarrow> compiled_entries eng s"
  by (induction rule: evolves.induct) (auto intro: compiled_entries_call)

lemma evolves_cache_mono: "evolves eng s0 s \<Longrightarrow> cache s0 \<subseteq>\<^sub>m cache s"
proof (induction rule: evolves.induct)
  case start
  show ?case by simp
next
  case (step s x c eps diff)
  have "cache s \<subseteq>\<^sub>m cache (snd (call eng s x c eps diff))"
    using call_snd_update [of eng s x c eps diff] by (auto simp: map_le_def)
  with step.IH show ?case by (rule map_le_trans)
qed

section \<open>The arguments of the compiled evaluator\<close>

lemma concat_chunk:
  "(\<forall>y \<in> set ys. length y = n) \<Longrightarrow> k < length ys \<Longrightarrow>
     take n (drop (k * n) (concat ys)) = ys ! k"
proof (induction ys arbitrary: k)
  case Nil
  then show ?case by simp
next
  case (Cons y ys)
  show ?case
  proof (cases k)
    case 0
    then show ?thesis using Cons.prems by simp
  next
    case (Suc k')
    have "drop (k * n) (concat (y # ys)) = drop (k' * n) (concat ys)"
      using Cons.prems Suc by simp
    then show ?thesis using Cons.IH [of k'] Cons.prems Suc by simp
  qed
qed

lemma tuple_x:
  assumes "shape x = [N, D]"
  shows "tuple_of_array (new_axis_last (transpose2 x)) = columns D [N, 1] x"
proof -
  let ?ys = "map (\<lambda>k. map (\<lambda>i. items x ! (i * D + k)) [0..<N]) [0..<D]"
  have chunk: "take N (drop (k * N) (concat ?ys)) = ?ys ! k" if "k < D" for k
    using that by (intro concat_chunk) auto
  show ?thesis
    using assms chunk
    by (auto simp: tuple_of_array_def new_axis_last_def transpose2_def Let_def columns_def)
qed

lemma tuple_c:
  assumes "shape c = [M, D]"
  shows "tuple_of_array (new_axis_mid (transpose2 c)) = columns D [1, M] c"
proof -
  let ?ys = "map (\<lambda>k. map (\<lambda>i. items c ! (i * D + k)) [0..<M]) [0..<D]"
  have chunk: "take M (drop (k * M) (concat ?ys)) = ?ys ! k" if "k < D" for k
    using that by (intro concat_chunk) auto
  show ?thesis
    using assms chunk
    by (auto simp: tuple_of_array_def new_axis_mid_def transpose2_def Let_def columns_def)
qed

lemma call_args_columns:
  assumes "shape x = [N, D]" "shape c = [M, D]"
  shows "call_args x c eps = columns D [N, 1] x @ columns D [1, M] c @ [eps_array eps M]"
  using assms by (simp add: call_args_def tuple_x tuple_c)

lemma map_shape_columns: "map shape (columns dm shp a) = replicate dm shp"
  by (simp add: columns_def comp_def map_replicate_const)

lemma length_columns [simp]: "length (columns dm shp a) = dm"
  by (simp add: columns_def)

lemma broadcast2_simps:
  "broadcast2 [M] [] = Some [M]"
  "broadcast2 [Suc 0, M] [M] = Some [Suc 0, M]"
  "broadcast2 [Suc 0, M] [Suc 0, M] = Some [Suc 0, M]"
  "broadcast2 [N, Suc 0] [Suc 0, M] = Some [N, M]"
  "broadcast2 [N, Suc 0] [N, M] = Some [N, M]"
  by (auto simp: broadcast2_def)

lemma broadcast_centres:
  "broadcast_shapes (replicate D [Suc 0, M] @ [[M]]) = Some (if D = 0 then [M] else [Suc 0, M])"
  by (induction D) (auto simp: broadcast2_simps)

lemma broadcast_points:
  "0 < D \<Longrightarrow> broadcast_shapes (replicate K [N, Suc 0] @ replicate D [Suc 0, M] @ [[M]]) =
     Some (if K = 0 then [Suc 0, M] else [N, M])"
  by (induction K) (auto simp: broadcast2_simps broadcast_centres)

lemma broadcast_args:
  "broadcast_shapes (replicate D [N, Suc 0] @ replicate D [Suc 0, M] @ [[M]]) =
     Some (if D = 0 then [M] else [N, M])"
  using broadcast_points [of D D N M] broadcast_centres [of 0 M] by auto

lemma call_args_broadcast:
  assumes "shape x = [N, D]" "shape c = [M, D]" "shape (eps_array eps M) = [M]"
  shows "broadcast_shapes (map shape (call_args x c eps)) = Some (if D = 0 then [M] else [N, M])"
  using assms broadcast_args [of D N M]
  by (simp add: call_args_columns [OF assms(1,2)] map_shape_columns)

lemma length_coordinate_symbols [simp]: "length (x_sym n) = n" "length (c_sym n) = n"
  by (simp_all add: x_sym_def c_sym_def)

lemma ufunc_call_args:
  assumes "shape x = [N, D]" "shape c = [M, D]" "shape (eps_array eps M) = [M]"
    and "uargs f = x_sym D @ c_sym D @ [EPS]"
  shows "ufunc_call f (call_args x c eps) =
     Inr \<lparr>shape = (if D = 0 then [M] else [N, M]),
          items = map (\<lambda>idx. eval_expr
                     (map_of (zip (uargs f) (map (\<lambda>a. bget a idx) (call_args x c eps))))
                     (ubody f))
                   (indices (if D = 0 then [M] else [N, M]))\<rparr>"
proof -
  have len: "length (call_args x c eps) = length (uargs f)"
    using assms by (simp add: call_args_columns [OF assms(1,2)])
  show ?thesis
    unfolding ufunc_call_def
    using len call_args_broadcast [OF assms(1-3)] by simp
qed

section \<open>The result of a call\<close>

lemma valid_args_shapes:
  assumes "shape x = [N, D]" "shape c = [M, D]" "shape (eps_array eps M) = [M]"
    and "length (key_of diff D) = D"
  shows "valid_args x c eps diff"
  using assms by (simp add: valid_args_def)

lemma compiled_errors:
  "compiled eng s d = Inl err \<Longrightarrow> err \<in> {DerivativeError, UnsupportedLimit, CodegenError}"
proof -
  have dl: "diff_loop eng e ps = Inl err \<Longrightarrow> err = DerivativeError" for e ps
    by (induction eng e ps rule: diff_loop.induct) (auto split: option.splits if_splits)
  have ll: "limit_loop eng e ps = Inl err \<Longrightarrow> err = UnsupportedLimit" for e ps
    by (induction eng e ps rule: limit_loop.induct) (auto split: option.splits)
  assume "compiled eng s d = Inl err"
  then show ?thesis
    unfolding compiled_def add_diff_to_cache_def Let_def ufuncify_def
    by (auto simp: assert_shape_simps dest: dl ll split: sum.splits option.splits if_splits)
qed

lemma call_result:
  assumes "shape x = [N, D]" "shape c = [M, D]" "shape (eps_array eps M) = [M]"
    and "length (key_of diff D) = D" and "compiled_entries eng s"
  shows "call eng s x c eps diff =
     (case (case cache s (key_of diff D) of
              Some f \<Rightarrow> Inr f
            | None \<Rightarrow> compiled eng s (key_of diff D)) of
        Inl err \<Rightarrow> (Inl err, s)
      | Inr f \<Rightarrow>
          (Inr \<lparr>shape = (if D = 0 then [M] else [N, M]),
                items = map (\<lambda>idx. eval_expr
                           (map_of (zip (x_sym D @ c_sym D @ [EPS])
                              (map (\<lambda>a. bget a idx) (call_args x c eps))))
                           (ubody f))
                         (indices (if D = 0 then [M] else [N, M]))\<rparr>,
           s\<lparr>cache := (cache s)(key_of diff D \<mapsto> f)\<rparr>))"
proof -
  let ?k = "key_of diff D"
  have v: "valid_args x c eps diff" using assms(1-4) by (rule valid_args_shapes)
  have k: "key_of diff (shape x ! 1) = ?k" using assms(1) by simp
  show ?thesis
  proof (cases "cache s ?k")
    case (Some f)
    with assms(5) have "compiled eng s ?k = Inr f" by (simp add: compiled_entries_def)
    then have ar: "uargs f = x_sym D @ c_sym D @ [EPS]"
      using compiled_arity assms(4) by fastforce
    have "s\<lparr>cache := (cache s)(?k \<mapsto> f)\<rparr> = s" using Some by (simp add: map_upd_triv)
    then show ?thesis
      using Some call_hit [OF v, of s f eng] k ufunc_call_args [OF assms(1-3) ar] ar by simp
  next
    case None
    show ?thesis
    proof (cases "compiled eng s ?k")
      case (Inl err)
      then show ?thesis using None k
        by (simp add: call_valid [OF v] Let_def add_diff_compiled)
    next
      case (Inr f)
      then have ar: "uargs f = x_sym D @ c_sym D @ [EPS]"
        using compiled_arity assms(4) by fastforce
      show ?thesis using None k Inr ufunc_call_args [OF assms(1-3) ar] ar
        by (simp add: call_valid [OF v] Let_def add_diff_compiled)
    qed
  qed
qed

text \<open>
  A call whose arguments pass the shape checks, on an instance whose cache was filled by
  calls, raises neither a shape error nor an error of the evaluator call; when the
  derivative is in the cache or compiles, the call returns an array, of shape \<open>(N, M)\<close>
  in one dimension or more and of the shape \<open>(M)\<close> of the shape parameters when the
  points have no coordinates.
\<close>

lemma call_shape:
  assumes "shape x = [N, D]" "shape c = [M, D]" "shape (eps_array eps M) = [M]"
    and "length (key_of diff D) = D" and "compiled_entries eng s"
  shows "(\<forall>m. fst (call eng s x c eps diff) \<noteq> Inl (ShapeMismatch m)) \<and>
         fst (call eng s x c eps diff) \<noteq> Inl CallError \<and>
         (cache s (key_of diff D) \<noteq> None \<or> (\<exists>f. compiled eng s (key_of diff D) = Inr f) \<longrightarrow>
            (\<exists>out. fst (call eng s x c eps diff) = Inr out \<and>
                   shape out = (if D = 0 then [M] else [N, M])))"
  unfolding call_result [OF assms]
  by (auto split: sum.splits option.splits dest: compiled_errors)

lemma ga_compiled_entries: "compiled_entries eng ga"
  by (simp add: compiled_entries_def ga_fields)

lemma phs1_compiled_entries: "compiled_entries eng phs1"
  by (simp add: compiled_entries_def phs1_fields)

lemma compile_ga_0d:
  "compiled eng ga [] =
     Inr \<lparr>uargs = [EPS], ubody = Exp (Neg (Pow (Mul (Sym EPS) (r_sym 0)) (Num 2)))\<rparr>"
  by (simp add: compiled_def add_diff_to_cache_def assert_shape_simps ga_fields
      coordinate_symbols ufuncify_def r_sym_def)

section \<open>The items of the result\<close>

lemma nth_concat_uniform:
  assumes "\<forall>y \<in> set ys. length y = n" "i < length ys" "j < n"
  shows "concat ys ! (i * n + j) = ys ! i ! j"
proof -
  have len: "length (concat ys) = length ys * n"
    using assms(1) by (induction ys) auto
  have "i * n + n \<le> length ys * n"
    using assms(2) by (metis Suc_leI mult_Suc mult_le_mono1 add.commute)
  then have le: "i * n \<le> length (concat ys)" using len by linarith
  have "concat ys ! (i * n + j) = drop (i * n) (concat ys) ! j"
    using le by simp
  also have "\<dots> = take n (drop (i * n) (concat ys)) ! j"
    using assms(3) by simp
  also have "\<dots> = ys ! i ! j"
    using concat_chunk [OF assms(1,2)] by simp
  finally show ?thesis .
qed

lemma indices_rank1: "indices [M] = map (\<lambda>j. [j]) [0..<M]"
  by (simp add: concat_map_singleton)

lemma indices_rank2: "indices [N, M] = concat (map (\<lambda>i. map (\<lambda>j. [i, j]) [0..<M]) [0..<N])"
proof -
  have "indices [N, M] = concat (map (\<lambda>i. map ((#) i) (indices [M])) [0..<N])"
    by simp
  then show ?thesis unfolding indices_rank1 by (simp add: comp_def)
qed

lemma indices_rank2_nth:
  assumes "i < N" "j < M"
  shows "indices [N, M] ! (i * M + j) = [i, j]" and "i * M + j < length (indices [N, M])"
proof -
  let ?ys = "map (\<lambda>i. map (\<lambda>j. [i, j]) [0..<M]) [0..<N]"
  have u: "\<forall>y \<in> set ?ys. length y = M" by auto
  have "concat ?ys ! (i * M + j) = ?ys ! i ! j"
    using assms by (intro nth_concat_uniform [OF u]) auto
  also have "\<dots> = [i, j]" using assms by simp
  finally show "indices [N, M] ! (i * M + j) = [i, j]"
    unfolding indices_rank2 .
  have "length (concat ?ys) = N * M"
    by (simp add: length_concat comp_def sum_list_triv)
  moreover have "i * M + j < N * M"
  proof -
    have "i * M + j < i * M + M" using assms(2) by simp
    also have "\<dots> = Suc i * M" by simp
    also have "\<dots> \<le> N * M" using assms(1) by (intro mult_le_mono1) simp
    finally show ?thesis .
  qed
  ultimately show "i * M + j < length (indices [N, M])"
    unfolding indices_rank2 by simp
qed

lemma bget_point_column:
  "i < N \<Longrightarrow> bget \<lparr>shape = [N, Suc 0], items = its\<rparr> [i, j] = its ! i"
  by (auto simp: bget_def flat_index_def)

lemma bget_centre_column:
  "j < M \<Longrightarrow> bget \<lparr>shape = [Suc 0, M], items = its\<rparr> [i, j] = its ! j"
  by (auto simp: bget_def flat_index_def)

lemma distinct_arguments: "distinct (x_sym D @ c_sym D @ [EPS])"
  by (auto simp: x_sym_def c_sym_def distinct_map inj_on_def)

lemma arguments_nth:
  "k < D \<Longrightarrow> (x_sym D @ c_sym D @ [EPS]) ! k = X k"
  "k < D \<Longrightarrow> (x_sym D @ c_sym D @ [EPS]) ! (D + k) = C k"
  "(x_sym D @ c_sym D @ [EPS]) ! (D + D) = EPS"
  by (simp_all add: nth_append x_sym_def c_sym_def)

lemma environment:
  assumes "length vs = D + D + 1"
  shows "k < D \<Longrightarrow> map_of (zip (x_sym D @ c_sym D @ [EPS]) vs) (X k) = Some (vs ! k)"
    and "k < D \<Longrightarrow> map_of (zip (x_sym D @ c_sym D @ [EPS]) vs) (C k) = Some (vs ! (D + k))"
    and "map_of (zip (x_sym D @ c_sym D @ [EPS]) vs) EPS = Some (vs ! (D + D))"
proof -
  let ?as = "x_sym D @ c_sym D @ [EPS]"
  have len: "length ?as = length vs" using assms by simp
  have nth: "n < length vs \<Longrightarrow> map_of (zip ?as vs) (?as ! n) = Some (vs ! n)" for n
    using map_of_zip_nth [OF len distinct_arguments] by simp
  show "k < D \<Longrightarrow> map_of (zip ?as vs) (X k) = Some (vs ! k)"
    using nth [of k] assms arguments_nth(1) [of k D] by simp
  show "k < D \<Longrightarrow> map_of (zip ?as vs) (C k) = Some (vs ! (D + k))"
    using nth [of "D + k"] assms arguments_nth(2) [of k D] by simp
  show "map_of (zip ?as vs) EPS = Some (vs ! (D + D))"
    using nth [of "D + D"] assms arguments_nth(3) [of D] by simp
qed

lemma eval_sum_zero:
  "eval_expr env acc = Some 0 \<Longrightarrow> \<forall>t \<in> set ts. eval_expr env t = Some 0 \<Longrightarrow>
     eval_expr env (foldl Add acc ts) = Some 0"
  by (induction ts arbitrary: acc) (auto simp: lift2_def)

lemma eval_r_sym_at_centre:
  assumes "\<forall>k<D. \<exists>v. env (X k) = Some v \<and> env (C k) = Some v"
  shows "eval_expr env (r_sym D) = Some 0"
proof -
  let ?ts = "map (\<lambda>(xi, ci). Pow (Sub (Sym xi) (Sym ci)) (Num 2)) (zip (x_sym D) (c_sym D))"
  have ts: "?ts = map (\<lambda>k. Pow (Sub (Sym (X k)) (Sym (C k))) (Num 2)) [0..<D]"
    by (simp add: x_sym_def c_sym_def zip_map_map zip_same_conv_map comp_def)
  have "\<forall>t \<in> set ?ts. eval_expr env t = Some 0"
    unfolding ts using assms by (auto simp: lift2_def pow_real_def)
  then have "eval_expr env (foldl Add (Num 0) ?ts) = Some 0"
    by (intro eval_sum_zero) simp_all
  then show ?thesis by (simp add: r_sym_def)
qed

lemma diff_loop_zeros:
  "\<forall>p \<in> set ps. snd p = 0 \<Longrightarrow> diff_loop eng e ps = Inr e"
  by (induction eng e ps rule: diff_loop.induct) auto

lemma free_symbols_sum:
  "free_symbols (foldl Add acc ts) = free_symbols acc \<union> (\<Union>t \<in> set ts. free_symbols t)"
  by (induction ts arbitrary: acc) auto

lemma free_symbols_r_sym: "free_symbols (r_sym D) \<subseteq> set (x_sym D) \<union> set (c_sym D)"
  by (auto simp: r_sym_def free_symbols_sum dest: set_zip_leftD set_zip_rightD)

lemma compile_zeros:
  assumes "expr s = Mul (Sym EPS) (Sym R)" "tol s = Some (Num t)"
    and "limits s (replicate D 0) = Some (Num 0)"
  shows "compiled eng s (replicate D 0) =
     Inr \<lparr>uargs = x_sym D @ c_sym D @ [EPS],
          ubody = Piecewise (Num 0) (r_sym D) (Num t) (Mul (Sym EPS) (r_sym D))\<rparr>"
proof -
  have dl: "diff_loop eng (Mul (Sym EPS) (r_sym D)) (zip (x_sym D) (replicate D 0)) =
      Inr (Mul (Sym EPS) (r_sym D))"
    by (intro diff_loop_zeros) (auto dest: set_zip_rightD)
  show ?thesis
    using assms dl free_symbols_r_sym [of D]
    by (auto simp: compiled_def add_diff_to_cache_def assert_shape_simps ufuncify_def)
qed


lemma columns_nth:
  "k < dm \<Longrightarrow> columns dm shp a ! k =
     \<lparr>shape = shp, items = map (\<lambda>i. items a ! (i * dm + k)) [0..<hd (shape a)]\<rparr>"
  by (simp add: columns_def)

lemma environment_at:
  fixes eps :: eps_arg
  assumes x: "shape x = [N, D]" and c: "shape c = [M, D]"
    and ij: "i < N" "j < M" and k: "k < D"
  defines "env \<equiv> map_of (zip (x_sym D @ c_sym D @ [EPS])
                    (map (\<lambda>a. bget a [i, j]) (call_args x c eps)))"
  shows "env (X k) = Some (items x ! (i * D + k))"
    and "env (C k) = Some (items c ! (j * D + k))"
proof -
  let ?args = "columns D [N, 1] x @ columns D [1, M] c @ [eps_array eps M]"
  let ?vs = "map (\<lambda>a. bget a [i, j]) ?args"
  have ca: "call_args x c eps = ?args" using x c by (rule call_args_columns)
  have len: "length ?vs = D + D + 1" by simp
  have xk: "?vs ! k = items x ! (i * D + k)"
    using k ij x by (simp add: nth_append columns_nth bget_point_column)
  have ck: "?vs ! (D + k) = items c ! (j * D + k)"
    using k ij c by (simp add: nth_append columns_nth bget_centre_column)
  show "env (X k) = Some (items x ! (i * D + k))"
    unfolding env_def ca using environment(1) [OF len k] xk by simp
  show "env (C k) = Some (items c ! (j * D + k))"
    unfolding env_def ca using environment(2) [OF len k] ck by simp
qed

section \<open>Concrete runs\<close>

lemmas concrete_inputs =
  vector_2_def points_1d_def centre_1d_def points_2d_def centre_2d_def

lemma call_success:
  assumes "shape x = [N, D]" "shape c = [M, D]" "shape (eps_array eps M) = [M]"
    and "length (key_of diff D) = D" and "compiled_entries eng s"
    and "(case cache s (key_of diff D) of
            Some f \<Rightarrow> Inr f
          | None \<Rightarrow> compiled eng s (key_of diff D)) = Inr f"
  shows "\<exists>out. call eng s x c eps diff = (Inr out, s\<lparr>cache := (cache s)(key_of diff D \<mapsto> f)\<rparr>) \<and>
           shape out = (if D = 0 then [M] else [N, M])"
  unfolding call_result [OF assms(1-5)] assms(6) by simp

lemma phs1_first_call_1d:
  assumes "key_of diff 1 = [0]"
  shows "\<exists>out. call eng phs1 points_1d centre_1d (EpsScalar v) diff =
     (Inr out, phs1\<lparr>cache := [[0] \<mapsto>
        \<lparr>uargs = x_sym 1 @ c_sym 1 @ [EPS],
         ubody = Piecewise (Num 0) (r_sym 1) (Num (1 / 10 ^ 10)) (Mul (Sym EPS) (r_sym 1))\<rparr>]\<rparr>)"
proof -
  have cz: "compiled eng phs1 (replicate 1 0) =
      Inr \<lparr>uargs = x_sym 1 @ c_sym 1 @ [EPS],
         ubody = Piecewise (Num 0) (r_sym 1) (Num (1 / 10 ^ 10)) (Mul (Sym EPS) (r_sym 1))\<rparr>"
    by (rule compile_zeros) (simp_all add: phs1_fields)
  have "\<exists>out. call eng phs1 points_1d centre_1d (EpsScalar v) diff =
      (Inr out, phs1\<lparr>cache := (cache phs1)(key_of diff 1 \<mapsto>
        \<lparr>uargs = x_sym 1 @ c_sym 1 @ [EPS],
         ubody = Piecewise (Num 0) (r_sym 1) (Num (1 / 10 ^ 10)) (Mul (Sym EPS) (r_sym 1))\<rparr>)\<rparr>) \<and>
      shape out = (if (1::nat) = 0 then [1] else [2, 1])"
    using cz assms
    by (intro call_success)
       (simp_all add: concrete_inputs eps_array_def np_full_def phs1_compiled_entries phs1_fields)
  then show ?thesis using assms by (auto simp: phs1_fields)
qed

lemma phs1_used_cache: "cache phs1_used [0] \<noteq> None" "cache phs1_used \<noteq> cache phs1"
proof -
  obtain out where "call sample_engine phs1 points_1d centre_1d (EpsScalar 1) None =
     (Inr out, phs1\<lparr>cache := [[0] \<mapsto>
        \<lparr>uargs = x_sym 1 @ c_sym 1 @ [EPS],
         ubody = Piecewise (Num 0) (r_sym 1) (Num (1 / 10 ^ 10)) (Mul (Sym EPS) (r_sym 1))\<rparr>]\<rparr>)"
    using phs1_first_call_1d [of None sample_engine 1] by auto
  then have c: "cache phs1_used = [[0] \<mapsto>
        \<lparr>uargs = x_sym 1 @ c_sym 1 @ [EPS],
         ubody = Piecewise (Num 0) (r_sym 1) (Num (1 / 10 ^ 10)) (Mul (Sym EPS) (r_sym 1))\<rparr>]"
    by (simp add: phs1_used_def)
  show "cache phs1_used [0] \<noteq> None" by (simp add: c)
  then show "cache phs1_used \<noteq> cache phs1" by (auto simp: phs1_fields)
qed

section \<open>A call on arrays in memory\<close>

subsection \<open>The store only grows\<close>

lemma np_full_in_store_appends:
  "np_full_in_store st n v = (w, st') \<Longrightarrow> \<exists>ext. st' = st @ ext"
  by (auto simp: np_full_in_store_def)

lemma ufunc_call_in_store_appends:
  "ufunc_call_in_store f vs st = (r, st') \<Longrightarrow> \<exists>ext. st' = st @ ext"
  by (auto simp: ufunc_call_in_store_def Let_def split: sum.splits)

lemma call_in_store_appends:
  assumes "call_in_store eng s st x c eps diff = (r, s', st')"
  shows "\<exists>ext. st' = st @ ext"
proof -
  obtain e1 st1 where e: "(case eps of
              EpsFloat v \<Rightarrow> np_full_in_store st (shape (window c) ! 0) v
            | EpsView a \<Rightarrow> (a, st)) = (e1, st1)"
    by (cases "(case eps of
              EpsFloat v \<Rightarrow> np_full_in_store st (shape (window c) ! 0) v
            | EpsView a \<Rightarrow> (a, st))")
  then have x1: "\<exists>ext. st1 = st @ ext"
    by (cases eps) (auto dest: np_full_in_store_appends)
  have "st' = st \<or> st' = st1 \<or> (\<exists>f vs r. ufunc_call_in_store f vs st1 = (r, st'))"
    using assms e unfolding call_in_store_def Let_def
    by (auto split: sum.splits option.splits if_splits prod.splits)
  then show ?thesis
    using x1 by (auto dest: ufunc_call_in_store_appends)
qed

lemma call_in_store_update:
  assumes "call_in_store eng s st x c eps diff = (r, s', st')"
  shows "s' = s \<or> (\<exists>d f. s' = s\<lparr>cache := (cache s)(d \<mapsto> f)\<rparr>)"
  using assms unfolding call_in_store_def Let_def
  by (auto split: sum.splits option.splits if_splits prod.splits dest: add_diff_to_cache_Inr)

lemma read_view_append:
  "base v < length st \<Longrightarrow> read_view (st @ ext) v = read_view st v"
  by (simp add: read_view_def amap_def peek_def nth_append)

subsection \<open>Views commute with reading\<close>

lemma amap_simps [simp]:
  "shape (amap g a) = shape a" "items (amap g a) = map g (items a)"
  by (simp_all add: amap_def)

lemma offset_less: "i < n \<Longrightarrow> k < d \<Longrightarrow> i * d + k < n * (d::nat)"
proof -
  assume a: "i < n" "k < d"
  have "i * d + k < i * d + d" using a(2) by simp
  also have "\<dots> = Suc i * d" by simp
  also have "\<dots> \<le> n * d" using a(1) by (intro mult_le_mono1) simp
  finally show ?thesis .
qed

lemma transpose2_amap:
  assumes "shape a = [n, d]" "length (items a) = n * d"
  shows "transpose2 (amap g a) = amap g (transpose2 a)"
proof -
  have nth: "map g (items a) ! (i * d + k) = g (items a ! (i * d + k))" if "i < n" "k < d" for i k
    using offset_less [OF that] assms(2) by simp
  have "concat (map (\<lambda>k. map (\<lambda>i. map g (items a) ! (i * d + k)) [0..<n]) [0..<d]) =
        concat (map (\<lambda>k. map (\<lambda>i. g (items a ! (i * d + k))) [0..<n]) [0..<d])"
    by (intro arg_cong [where f = concat] map_cong refl) (simp add: nth)
  then show ?thesis
    using assms(1) by (simp add: transpose2_def amap_def Let_def map_concat comp_def)
qed

lemma new_axis_amap:
  "new_axis_last (amap g a) = amap g (new_axis_last a)"
  "new_axis_mid (amap g a) = amap g (new_axis_mid a)"
  by (simp_all add: new_axis_last_def new_axis_mid_def amap_def)

lemma tuple_of_array_amap: "tuple_of_array (amap g a) = map (amap g) (tuple_of_array a)"
  by (simp add: tuple_of_array_def amap_def Let_def take_map drop_map)

lemma read_tuple_of_view:
  "map (read_view st) (tuple_of_view v) = tuple_of_array (read_view st v)"
  by (simp add: tuple_of_view_def read_view_def tuple_of_array_amap comp_def)

lemma represents_shape: "represents st v a \<Longrightarrow> shape (window v) = shape a"
  unfolding represents_def read_view_def amap_def by simp

lemma represents_append: "represents st v a \<Longrightarrow> represents (st @ ext) v a"
  by (simp add: represents_def read_view_append)

lemma read_columns:
  assumes r: "represents st v a" and s: "shape a = [n, d]"
  shows "read_view st (on_window new_axis_last (on_window transpose2 v)) =
           amap Some (new_axis_last (transpose2 a))"
    and "read_view st (on_window new_axis_mid (on_window transpose2 v)) =
           amap Some (new_axis_mid (transpose2 a))"
proof -
  have la: "length (items a) = n * d" using r s by (simp add: represents_def)
  have rv: "amap (peek st (base v)) (window v) = amap Some a"
    using r by (simp add: represents_def read_view_def)
  then have "map (peek st (base v)) (items (window v)) = map Some (items a)"
    by (simp add: amap_def)
  then have "length (items (window v)) = length (items a)"
    by (metis length_map)
  then have lw: "length (items (window v)) = n * d" using la by simp
  have sw: "shape (window v) = [n, d]" using represents_shape [OF r] s by simp
  have t: "amap (peek st (base v)) (transpose2 (window v)) = amap Some (transpose2 a)"
    using transpose2_amap [OF sw lw, of "peek st (base v)"] transpose2_amap [OF s la, of Some] rv
    by simp
  have "read_view st (on_window new_axis_last (on_window transpose2 v)) =
          new_axis_last (amap (peek st (base v)) (transpose2 (window v)))"
    by (simp add: read_view_def on_window_def new_axis_amap)
  then show "read_view st (on_window new_axis_last (on_window transpose2 v)) =
           amap Some (new_axis_last (transpose2 a))"
    by (simp only: t new_axis_amap)
  have "read_view st (on_window new_axis_mid (on_window transpose2 v)) =
          new_axis_mid (amap (peek st (base v)) (transpose2 (window v)))"
    by (simp add: read_view_def on_window_def new_axis_amap)
  then show "read_view st (on_window new_axis_mid (on_window transpose2 v)) =
           amap Some (new_axis_mid (transpose2 a))"
    by (simp only: t new_axis_amap)
qed

lemma read_call_args:
  assumes x: "represents st xv x" "shape x = [N, D]"
    and c: "represents st cv c" "shape c = [M, D]"
    and e: "read_view st ev = amap Some (eps_array eps M)"
  shows "map (read_view st)
           (tuple_of_view (on_window new_axis_last (on_window transpose2 xv)) @
            tuple_of_view (on_window new_axis_mid (on_window transpose2 cv)) @ [ev]) =
         map (amap Some) (call_args x c eps)"
  using c(2) e
  by (simp add: read_tuple_of_view read_columns [OF x] read_columns [OF c]
      tuple_of_array_amap call_args_def)

subsection \<open>The evaluator on finite items\<close>

lemma map_of_zip_Some:
  "(case map_of (zip ks (map Some vs)) k of None \<Rightarrow> None | Some u \<Rightarrow> u) = map_of (zip ks vs) k"
proof (induction ks arbitrary: vs)
  case Nil
  then show ?case by simp
next
  case (Cons a ks)
  then show ?case by (cases vs) auto
qed

lemma ufunc_apply_Some:
  assumes "\<And>shp idx a. broadcast_shapes (map shape args) = Some shp \<Longrightarrow>
      idx \<in> set (indices shp) \<Longrightarrow> a \<in> set args \<Longrightarrow> bget (amap Some a) idx = Some (bget a idx)"
  shows "ufunc_apply f (map (amap Some) args) = ufunc_call f args"
proof (cases "broadcast_shapes (map shape args)")
  case None
  then show ?thesis by (simp add: ufunc_apply_def ufunc_call_def comp_def)
next
  case (Some shp)
  have env: "(\<lambda>v. case map_of (zip (uargs f) (map (\<lambda>a. bget a idx) (map (amap Some) args))) v of
               None \<Rightarrow> None | Some u \<Rightarrow> u) =
             map_of (zip (uargs f) (map (\<lambda>a. bget a idx) args))"
    if "idx \<in> set (indices shp)" for idx
  proof -
    have "map (\<lambda>a. bget a idx) (map (amap Some) args) = map Some (map (\<lambda>a. bget a idx) args)"
      using assms [OF Some that] by simp
    then show ?thesis by (simp only: map_of_zip_Some)
  qed
  have "map (\<lambda>idx. eval_expr
            (\<lambda>v. case map_of (zip (uargs f) (map (\<lambda>a. bget a idx) (map (amap Some) args))) v of
               None \<Rightarrow> None | Some u \<Rightarrow> u) (ubody f)) (indices shp) =
        map (\<lambda>idx. eval_expr (map_of (zip (uargs f) (map (\<lambda>a. bget a idx) args))) (ubody f))
          (indices shp)"
    by (intro map_cong refl) (simp only: env)
  then show ?thesis
    using Some unfolding ufunc_apply_def ufunc_call_def
    by (simp add: comp_def)
qed

lemma bget_vector:
  "j < M \<Longrightarrow> shape a = [M] \<Longrightarrow> bget a [j] = items a ! j"
  "j < M \<Longrightarrow> shape a = [M] \<Longrightarrow> bget a [i, j] = items a ! j"
  by (auto simp: bget_def flat_index_def)

lemma call_args_in_range:
  assumes x: "shape x = [N, D]" and c: "shape c = [M, D]"
    and e: "shape (eps_array eps M) = [M]" "length (items (eps_array eps M)) = M"
    and idx: "idx \<in> set (indices (if D = 0 then [M] else [N, M]))"
    and a: "a \<in> set (call_args x c eps)"
  shows "bget (amap Some a) idx = Some (bget a idx)"
proof -
  from a consider
    (point) "a \<in> set (columns D [N, 1] x)" | (centre) "a \<in> set (columns D [1, M] c)"
    | (eps) "a = eps_array eps M"
    unfolding call_args_columns [OF x c] by auto
  then show ?thesis
  proof cases
    case point
    then have "0 < D" by (auto simp: columns_def)
    with idx obtain i j where ij: "idx = [i, j]" "i < N" "j < M"
      by (auto simp: indices_rank2)
    from point x obtain its where "a = \<lparr>shape = [N, Suc 0], items = its\<rparr>" "length its = N"
      by (auto simp: columns_def)
    then show ?thesis using ij by (simp add: amap_def bget_point_column)
  next
    case centre
    then have "0 < D" by (auto simp: columns_def)
    with idx obtain i j where ij: "idx = [i, j]" "i < N" "j < M"
      by (auto simp: indices_rank2)
    from centre c obtain its where "a = \<lparr>shape = [Suc 0, M], items = its\<rparr>" "length its = M"
      by (auto simp: columns_def)
    then show ?thesis using ij by (simp add: amap_def bget_centre_column)
  next
    case eps
    from idx obtain i j where "(idx = [j] \<or> idx = [i, j]) \<and> j < M"
      by (cases "D = 0") (auto simp: indices_rank2 indices_rank1)
    then show ?thesis
      using e eps bget_vector [of j M a] bget_vector [of j M "amap Some a"] by auto
  qed
qed

lemma ufunc_apply_call_args:
  assumes x: "shape x = [N, D]" and c: "shape c = [M, D]"
    and e: "shape (eps_array eps M) = [M]" "length (items (eps_array eps M)) = M"
  shows "ufunc_apply f (map (amap Some) (call_args x c eps)) = ufunc_call f (call_args x c eps)"
proof (rule ufunc_apply_Some)
  fix shp idx a
  assume "broadcast_shapes (map shape (call_args x c eps)) = Some shp"
    and i: "idx \<in> set (indices shp)" and a: "a \<in> set (call_args x c eps)"
  then have "shp = (if D = 0 then [M] else [N, M])"
    using call_args_broadcast [OF x c e(1)] by simp
  with i show "bget (amap Some a) idx = Some (bget a idx)"
    using call_args_in_range [OF x c e _ a] by simp
qed

lemma ufunc_call_in_store_reads:
  assumes "ufunc_call_in_store f vs st = (r, st')"
  shows "map_sum id (read_view st') r = ufunc_apply f (map (read_view st) vs)"
proof (cases "ufunc_apply f (map (read_view st) vs)")
  case (Inl err)
  then show ?thesis using assms by (auto simp: ufunc_call_in_store_def)
next
  case (Inr out)
  have "map (peek (st @ [items out]) (length st)) [0..<length (items out)] = items out"
    by (intro nth_equalityI) (simp_all add: peek_def)
  then show ?thesis
    using assms Inr
    by (auto simp: ufunc_call_in_store_def Let_def read_view_def amap_def)
qed

subsection \<open>The call in memory and the call on values\<close>

lemma eps_allocated:
  assumes er: "eps_represents st er eps"
    and al: "(case er of EpsFloat v \<Rightarrow> np_full_in_store st M v | EpsView a \<Rightarrow> (a, st)) = (ev, st1)"
  shows "shape (window ev) = shape (eps_array eps M)"
    and "\<exists>ext. st1 = st @ ext"
    and "read_view st1 ev = amap Some (eps_array eps M)"
    and "length (items (eps_array eps M)) = prod_list (shape (eps_array eps M))"
proof -
  have "shape (window ev) = shape (eps_array eps M) \<and> (\<exists>ext. st1 = st @ ext) \<and>
        read_view st1 ev = amap Some (eps_array eps M) \<and>
        length (items (eps_array eps M)) = prod_list (shape (eps_array eps M))"
  proof (cases er)
    case (EpsFloat v)
    then have e: "eps = EpsScalar v" using er by (simp add: eps_represents_def)
    have a: "ev = \<lparr>base = length st, window = \<lparr>shape = [M], items = [0..<M]\<rparr>\<rparr>"
      "st1 = st @ [replicate M (Some v)]"
      using al EpsFloat by (simp_all add: np_full_in_store_def)
    have "map (peek (st @ [replicate M (Some v)]) (length st)) [0..<M] = map Some (replicate M v)"
      by (intro nth_equalityI) (simp_all add: peek_def)
    then show ?thesis
      by (simp add: a e eps_array_def np_full_def read_view_def amap_def)
  next
    case (EpsView a)
    then obtain e where e: "eps = EpsArray e" "represents st a e"
      using er by (auto simp: eps_represents_def split: eps_arg.splits)
    have a: "ev = a" "st1 = st" using al EpsView by simp_all
    show ?thesis
      using e(2) represents_shape [OF e(2)]
      by (simp add: a e(1) eps_array_def represents_def)
  qed
  then show "shape (window ev) = shape (eps_array eps M)"
    and "\<exists>ext. st1 = st @ ext"
    and "read_view st1 ev = amap Some (eps_array eps M)"
    and "length (items (eps_array eps M)) = prod_list (shape (eps_array eps M))"
    by blast+
qed

lemma call_in_store_invalid:
  assumes sx: "shape (window xv) = shape x" and sc: "shape (window cv) = shape c"
    and al: "(case er of EpsFloat v \<Rightarrow> np_full_in_store st (shape c ! 0) v
               | EpsView a \<Rightarrow> (a, st)) = (ev, st1)"
    and se: "shape (window ev) = shape (eps_array eps (shape c ! 0))"
    and nv: "\<not> valid_args x c eps diff"
  shows "\<exists>m st'. call_in_store eng s st xv cv er diff = (Inl (ShapeMismatch m), s, st') \<and>
           call eng s x c eps diff = (Inl (ShapeMismatch m), s)"
  using nv se
  unfolding valid_args_def call_def call_in_store_def key_of_def Let_def sx sc al
  by (auto simp: eps_array_def assert_shape_simps singleton_shape
      split: eps_arg.splits option.splits)

lemma call_in_store_valid:
  assumes sx: "shape (window xv) = shape x" and sc: "shape (window cv) = shape c"
    and al: "(case er of EpsFloat v \<Rightarrow> np_full_in_store st (shape c ! 0) v
               | EpsView a \<Rightarrow> (a, st)) = (ev, st1)"
    and se: "shape (window ev) = shape (eps_array eps (shape c ! 0))"
    and v: "valid_args x c eps diff"
  shows "call_in_store eng s st xv cv er diff =
     (let d = key_of diff (shape x ! 1) in
      case (if cache s d = None then add_diff_to_cache eng s d else Inr s) of
        Inl err \<Rightarrow> (Inl err, s, st1)
      | Inr s' \<Rightarrow>
         (case cache s' d of
            None \<Rightarrow> (Inl CallError, s', st1)
          | Some f \<Rightarrow>
              (case ufunc_call_in_store f
                 (tuple_of_view (on_window new_axis_last (on_window transpose2 xv)) @
                  tuple_of_view (on_window new_axis_mid (on_window transpose2 cv)) @ [ev]) st1 of
                 (r, st2) \<Rightarrow> (r, s', st2))))"
  using v se
  unfolding valid_args_def call_in_store_def key_of_def Let_def sx sc al
  by (auto simp: eps_array_def assert_shape_simps singleton_shape
      split: eps_arg.splits option.splits sum.splits)

text \<open>
  The two models of \<^verbatim>\<open>__call__\<close> agree: when the views show arrays of finite
  floats, the call in memory leaves the instance that the call on these arrays leaves,
  raises the same error, and returns a view that shows, in the store it leaves, the
  array that the call on values returns.
\<close>

lemma call_in_store_call:
  assumes xr: "represents st xv x" and cr: "represents st cv c"
    and er: "eps_represents st er eps"
    and h: "call_in_store eng s st xv cv er diff = (r, s', st')"
  shows "call eng s x c eps diff = (map_sum id (read_view st') r, s')"
proof -
  obtain ev st1 where al: "(case er of EpsFloat v \<Rightarrow> np_full_in_store st (shape c ! 0) v
               | EpsView a \<Rightarrow> (a, st)) = (ev, st1)"
    by (cases "(case er of EpsFloat v \<Rightarrow> np_full_in_store st (shape c ! 0) v
               | EpsView a \<Rightarrow> (a, st))")
  note e = eps_allocated [OF er al]
  note sx = represents_shape [OF xr] and sc = represents_shape [OF cr]
  show ?thesis
  proof (cases "valid_args x c eps diff")
    case False
    from call_in_store_invalid [OF sx sc al e(1) False, of eng s] h
    show ?thesis by auto
  next
    case True
    then obtain N D M where shp: "shape x = [N, D]" "shape c = [M, D]"
      "shape (eps_array eps M) = [M]"
      unfolding valid_args_def
      by (metis (no_types, lifting) length_0_conv length_Suc_conv nth_Cons_0 nth_Cons_Suc
          numeral_2_eq_2 One_nat_def)
    then have M: "shape c ! 0 = M" by simp
    from e(2) obtain ext where ext: "st1 = st @ ext" by blast
    have rd: "map (read_view st1)
           (tuple_of_view (on_window new_axis_last (on_window transpose2 xv)) @
            tuple_of_view (on_window new_axis_mid (on_window transpose2 cv)) @ [ev]) =
         map (amap Some) (call_args x c eps)"
      using e(3) unfolding M ext
      by (rule read_call_args [OF represents_append [OF xr] shp(1)
            represents_append [OF cr] shp(2)])
    have wf: "length (items (eps_array eps M)) = M" using e(4) shp(3) unfolding M by simp
    have ap: "ufunc_apply f (map (amap Some) (call_args x c eps)) =
        ufunc_call f (call_args x c eps)" for f
      using shp wf by (rule ufunc_apply_call_args)
    have step: "ufunc_call f (call_args x c eps) = map_sum id (read_view st2) r2"
      if "ufunc_call_in_store f
           (tuple_of_view (on_window new_axis_last (on_window transpose2 xv)) @
            tuple_of_view (on_window new_axis_mid (on_window transpose2 cv)) @ [ev]) st1 =
          (r2, st2)" for f r2 st2
      using ufunc_call_in_store_reads [OF that] unfolding rd ap by simp
    show ?thesis
      using h step
      unfolding call_in_store_valid [OF sx sc al e(1) True] call_valid [OF True] Let_def
      by (auto split: sum.splits option.splits if_splits prod.splits)
  qed
qed

subsection \<open>A concrete run in memory\<close>

lemma phs1_used_eq:
  "phs1_used = phs1\<lparr>cache := [[0] \<mapsto>
        \<lparr>uargs = x_sym 1 @ c_sym 1 @ [EPS],
         ubody = Piecewise (Num 0) (r_sym 1) (Num (1 / 10 ^ 10)) (Mul (Sym EPS) (r_sym 1))\<rparr>]\<rparr>"
  using phs1_first_call_1d [of None sample_engine 1] by (auto simp: phs1_used_def)

lemma first_compile:
  "add_diff_to_cache eng phs1 [0] = Inr (phs1\<lparr>cache := [[0] \<mapsto>
        \<lparr>uargs = x_sym 1 @ c_sym 1 @ [EPS],
         ubody = Piecewise (Num 0) (r_sym 1) (Num (1 / 10 ^ 10)) (Mul (Sym EPS) (r_sym 1))\<rparr>]\<rparr>)"
proof -
  have "compiled eng phs1 (replicate 1 0) =
      Inr \<lparr>uargs = x_sym 1 @ c_sym 1 @ [EPS],
         ubody = Piecewise (Num 0) (r_sym 1) (Num (1 / 10 ^ 10)) (Mul (Sym EPS) (r_sym 1))\<rparr>"
    by (rule compile_zeros) (simp_all add: phs1_fields)
  then show ?thesis by (simp add: add_diff_compiled phs1_fields)
qed

lemma views_1d:
  "tuple_of_view (on_window new_axis_last (on_window transpose2 points_view)) =
     [\<lparr>base = 0, window = \<lparr>shape = [2, 1], items = [0, 1]\<rparr>\<rparr>]"
  "tuple_of_view (on_window new_axis_mid (on_window transpose2 centre_view)) =
     [\<lparr>base = 1, window = \<lparr>shape = [1, 1], items = [0]\<rparr>\<rparr>]"
  by (simp_all add: tuple_of_view_def on_window_def new_axis_last_def new_axis_mid_def
      transpose2_def tuple_of_array_def points_view_def centre_view_def Let_def upt_rec)

lemma evaluator_run:
  "ufunc_call_in_store
     \<lparr>uargs = x_sym 1 @ c_sym 1 @ [EPS],
      ubody = Piecewise (Num 0) (r_sym 1) (Num (1 / 10 ^ 10)) (Mul (Sym EPS) (r_sym 1))\<rparr>
     [\<lparr>base = 0, window = \<lparr>shape = [2, 1], items = [0, 1]\<rparr>\<rparr>,
      \<lparr>base = 1, window = \<lparr>shape = [1, 1], items = [0]\<rparr>\<rparr>,
      eps_view] caller_store =
   (Inr \<lparr>base = 3, window = \<lparr>shape = [2, 1], items = [0, 1]\<rparr>\<rparr>,
    [[Some 0, Some 1], [Some 0], [Some 1], [Some 0, Some 1]])"
  by (simp add: ufunc_call_in_store_def ufunc_apply_def read_view_def amap_def peek_def
      eps_view_def caller_store_def broadcast2_def bget_def flat_index_def x_sym_def c_sym_def
      r_sym_def lift2_def pow_real_def Let_def upt_rec)

lemma store_run:
  "call_in_store sample_engine phs1 caller_store points_view centre_view (EpsView eps_view) None =
     (Inr \<lparr>base = 3, window = \<lparr>shape = [2, 1], items = [0, 1]\<rparr>\<rparr>, phs1_used,
      [[Some 0, Some 1], [Some 0], [Some 1], [Some 0, Some 1]])"
proof -
  have sh: "shape (window points_view) = [2, 1]" "shape (window centre_view) = [1, 1]"
    "shape (window eps_view) = [1]"
    by (simp_all add: points_view_def centre_view_def eps_view_def)
  show ?thesis
    unfolding call_in_store_def Let_def views_1d
    using evaluator_run
    by (simp add: sh assert_shape_simps phs1_fields first_compile phs1_used_eq)
qed

lemma represents_concrete:
  "represents caller_store points_view points_1d"
  "represents caller_store centre_view centre_1d"
  "eps_represents caller_store (EpsView eps_view) (EpsArray \<lparr>shape = [1], items = [1]\<rparr>)"
  by (simp_all add: represents_def eps_represents_def read_view_def amap_def peek_def
      caller_store_def points_view_def centre_view_def eps_view_def concrete_inputs)

section \<open>Properties of the constructor\<close>

lemma has_free_symbols: "has e s \<longleftrightarrow> s \<in> free_symbols e"
  by (induction e) auto

lemma has_subs_scaled:
  "has e R \<Longrightarrow> has (subs e R (Mul (Sym EPS) (Sym R))) EPS"
  by (induction e) auto

text \<open>
  C4 (amended). The constructor fails with \<open>InvalidSymbols\<close> when the expression has a
  free symbol outside \<open>{R, EPS}\<close>; it fails with \<open>MissingRadialVariable\<close> when the
  expression has no such symbol and does not contain \<open>R\<close>. The check for foreign symbols
  comes first, so an expression that fails both checks fails with \<open>InvalidSymbols\<close>. In
  every one of these cases the result is an error and no definition is returned.
\<close>

theorem init_rejects_bad_expressions:
  "(free_symbols e - {R, EPS} \<noteq> {} \<longrightarrow> RBF_init e t lims = Inl InvalidSymbols) \<and>
   (free_symbols e - {R, EPS} = {} \<and> \<not> has e R \<longrightarrow>
      RBF_init e t lims = Inl MissingRadialVariable) \<and>
   (free_symbols e - {R, EPS} \<noteq> {} \<or> \<not> has e R \<longrightarrow> (\<forall>s. RBF_init e t lims \<noteq> Inr s))"
  by (auto simp: RBF_init_def)

theorem init_rejects_bad_expressions_witness:
  "RBF_init (Mul (Sym EPS) (Sym (Other ''y''))) None None = Inl InvalidSymbols \<and>
   RBF_init (Mul (Num 2) (Sym EPS)) None None = Inl MissingRadialVariable \<and>
   (\<forall>s. RBF_init (Mul (Num 2) (Sym EPS)) None None \<noteq> Inr s)"
  using init_rejects_bad_expressions [of "Mul (Sym EPS) (Sym (Other ''y''))" None None]
    init_rejects_bad_expressions [of "Mul (Num 2) (Sym EPS)" None None]
  by simp

theorem foreign_symbol_without_radial_variable:
  "\<not> has (Sym (Other ''y'')) R \<and>
   RBF_init (Sym (Other ''y'')) None None = Inl InvalidSymbols"
  by (simp add: RBF_init_def)

text \<open>
  C7. When the constructor accepts an expression that does not contain \<open>EPS\<close>, the stored
  expression is the given one with \<open>EPS * R\<close> substituted for \<open>R\<close>; an expression that
  contains \<open>EPS\<close> is stored as given; the stored expression contains \<open>EPS\<close> either way.
\<close>

theorem init_makes_expression_eps_aware:
  assumes "RBF_init e t lims = Inr s"
  shows "(\<not> has e EPS \<longrightarrow> expr s = subs e R (Mul (Sym EPS) (Sym R))) \<and>
         (has e EPS \<longrightarrow> expr s = e) \<and>
         has (expr s) EPS"
proof -
  from assms have r: "has e R"
    by (auto simp: RBF_init_def split: if_splits)
  from assms have stored:
    "expr s = (if \<not> has e EPS then subs e R (Mul (Sym EPS) (Sym R)) else e)"
    by (auto simp: RBF_init_def Let_def split: if_splits)
  show ?thesis
    using stored has_subs_scaled [OF r] by auto
qed

theorem init_makes_expression_eps_aware_witness:
  "(\<exists>s. RBF_init (Exp (Neg (Sym R))) None None = Inr s \<and>
        expr s = Exp (Neg (Mul (Sym EPS) (Sym R))) \<and> has (expr s) EPS) \<and>
   (\<exists>s. RBF_init (Exp (Neg (Div (Sym R) (Sym EPS)))) None None = Inr s \<and>
        expr s = Exp (Neg (Div (Sym R) (Sym EPS))) \<and> has (expr s) EPS)"
proof -
  obtain s where s: "RBF_init (Exp (Neg (Sym R))) None None = Inr s"
    by (simp add: RBF_init_def)
  obtain u where u: "RBF_init (Exp (Neg (Div (Sym R) (Sym EPS)))) None None = Inr u"
    by (simp add: RBF_init_def)
  show ?thesis
    using init_makes_expression_eps_aware [OF s] init_makes_expression_eps_aware [OF u] s u
    by simp
qed

section \<open>Properties of the derivative compiler\<close>



section \<open>Properties of evaluation\<close>

text \<open>
  C2. For \<open>phs1\<close> (the expression \<open>eps * r\<close>, the tolerance \<open>1e-10\<close>, the limits table
  that maps the all-zeros tuples of 1, 2 and 3 axes to 0), as the module defines it or after
  any number of calls, in 1, 2 or 3 dimensions: a call with \<^verbatim>\<open>diff\<close> omitted returns an
  array of shape \<open>(N, M)\<close> whose item at row \<open>i\<close>, column \<open>j\<close> is exactly 0, a number,
  whenever row \<open>i\<close> of \<open>x\<close> equals row \<open>j\<close> of \<open>c\<close>.
\<close>

theorem phs1_at_centre:
  assumes ev: "evolves eng phs1 s"
    and D: "D \<in> {1, 2, 3}"
    and x: "shape x = [N, D]" and c: "shape c = [M, D]"
    and eps: "(\<exists>v. eps = EpsScalar v) \<or> (\<exists>a. eps = EpsArray a \<and> shape a = [M])"
    and ij: "i < N" "j < M"
    and eq: "\<forall>k<D. items x ! (i * D + k) = items c ! (j * D + k)"
  shows "\<exists>out s'. call eng s x c eps None = (Inr out, s') \<and> shape out = [N, M] \<and>
           items out ! (i * M + j) = Some 0"
proof -
  let ?k = "replicate D (0::int)"
  define F where "F = \<lparr>uargs = x_sym D @ c_sym D @ [EPS],
             ubody = Piecewise (Num 0) (r_sym D) (Num (1 / 10 ^ 10)) (Mul (Sym EPS) (r_sym D))\<rparr>"
  define env where "env = (\<lambda>idx. map_of (zip (x_sym D @ c_sym D @ [EPS])
                    (map (\<lambda>a. bget a idx) (call_args x c eps))))"
  define G where "G = (\<lambda>idx. eval_expr (env idx) (ubody F))"
  from evolves_fields [OF ev] have fields:
    "expr s = Mul (Sym EPS) (Sym R)" "tol s = Some (Num (1 / 10 ^ 10))"
    "limits s = [[0] \<mapsto> Num 0, [0, 0] \<mapsto> Num 0, [0, 0, 0] \<mapsto> Num 0]"
    by (simp_all add: phs1_fields)
  have lim: "limits s ?k = Some (Num 0)"
    using D by (auto simp: fields(3) numeral_2_eq_2 numeral_3_eq_3)
  have inv: "compiled_entries eng s"
    using ev phs1_compiled_entries by (rule evolves_compiled_entries)
  have cz: "compiled eng s ?k = Inr F"
    unfolding F_def using fields(1,2) lim by (rule compile_zeros)
  have used: "(case cache s ?k of Some f \<Rightarrow> Inr f | None \<Rightarrow> compiled eng s ?k) = Inr F"
    using inv cz by (auto simp: compiled_entries_def split: option.splits)
  have e: "shape (eps_array eps M) = [M]"
    using eps by (auto simp: eps_array_def np_full_def)
  have D0: "D \<noteq> 0" using D by auto
  have kl: "length (key_of None D) = D" by simp
  note cr = call_result [OF x c e kl inv, unfolded key_of_simps]
  have res: "call eng s x c eps None =
      (Inr \<lparr>shape = [N, M], items = map G (indices [N, M])\<rparr>, s\<lparr>cache := (cache s)(?k \<mapsto> F)\<rparr>)"
    unfolding cr used G_def env_def using D0 by simp
  have rz: "eval_expr (env [i, j]) (r_sym D) = Some 0"
  proof (rule eval_r_sym_at_centre, intro allI impI)
    fix k assume k: "k < D"
    show "\<exists>v. env [i, j] (X k) = Some v \<and> env [i, j] (C k) = Some v"
      unfolding env_def using environment_at [OF x c ij k, of eps] eq k by simp
  qed
  have entry: "G [i, j] = Some 0"
    unfolding G_def F_def using rz by simp
  have "map G (indices [N, M]) ! (i * M + j) = G (indices [N, M] ! (i * M + j))"
    using indices_rank2_nth(2) [OF ij] by (rule nth_map)
  also have "\<dots> = Some 0"
    unfolding indices_rank2_nth(1) [OF ij] by (rule entry)
  finally have "items \<lparr>shape = [N, M], items = map G (indices [N, M])\<rparr> ! (i * M + j) = Some 0"
    by simp
  with res show ?thesis by (intro exI conjI) (assumption, simp, assumption)
qed

theorem phs1_at_centre_witness:
  "\<exists>out s'. call sample_engine phs1 points_2d centre_2d (EpsScalar 2) None = (Inr out, s') \<and>
     shape out = [2, 1] \<and> items out ! 1 = Some 0"
proof -
  have eq: "\<forall>k<2. items points_2d ! (1 * 2 + k) = items centre_2d ! (0 * 2 + k)"
    by (auto simp: concrete_inputs less_Suc_eq numeral_2_eq_2)
  have "\<exists>out s'. call sample_engine phs1 points_2d centre_2d (EpsScalar 2) None = (Inr out, s') \<and>
     shape out = [2, 1] \<and> items out ! (1 * 1 + 0) = Some 0"
    using eq by (intro phs1_at_centre [OF evolves.start]) (auto simp: concrete_inputs)
  then show ?thesis by simp
qed

text \<open>
  C3. The claim fails for points without coordinates. With \<open>x\<close> of shape \<open>(2, 0)\<close> and
  \<open>c\<close> of shape \<open>(3, 0)\<close> every shape check passes, \<^verbatim>\<open>tuple(x)\<close> and \<^verbatim>\<open>tuple(c)\<close>
  are empty, the compiled evaluator is called with the shape parameters alone, and the
  result has the shape \<open>(3)\<close> of the shape parameters, not \<open>(2, 3)\<close>. (Lemma
  \<open>call_shape\<close> gives the shape \<open>(N, M)\<close>, and no shape error, in one dimension or
  more.)
\<close>

theorem degenerate_dimension_result:
  "fst (call sample_engine ga \<lparr>shape = [2, 0], items = []\<rparr> \<lparr>shape = [3, 0], items = []\<rparr>
        (EpsScalar 1) None) = Inr \<lparr>shape = [3], items = [Some 1, Some 1, Some 1]\<rparr>"
proof -
  let ?x = "\<lparr>shape = [2, 0], items = []\<rparr> :: real ndarray"
  let ?c = "\<lparr>shape = [3, 0], items = []\<rparr> :: real ndarray"
  have "call_args ?x ?c (EpsScalar 1) =
      columns 0 [2, 1] ?x @ columns 0 [1, 3] ?c @ [eps_array (EpsScalar 1) 3]"
    by (rule call_args_columns) simp_all
  then have args: "call_args ?x ?c (EpsScalar 1) = [\<lparr>shape = [3], items = [1, 1, 1]\<rparr>]"
    by (simp add: columns_def eps_array_def np_full_def numeral_3_eq_3)
  have idx: "indices [3] = [[0], [1], [2]]"
    by (simp add: indices_rank1 numeral_3_eq_3)
  have "call sample_engine ga ?x ?c (EpsScalar 1) None =
     (case (case cache ga (key_of None 0) of
              Some f \<Rightarrow> Inr f
            | None \<Rightarrow> compiled sample_engine ga (key_of None 0)) of
        Inl err \<Rightarrow> (Inl err, ga)
      | Inr f \<Rightarrow>
          (Inr \<lparr>shape = (if (0::nat) = 0 then [3] else [2, 3]),
                items = map (\<lambda>idx. eval_expr
                           (map_of (zip (x_sym 0 @ c_sym 0 @ [EPS])
                              (map (\<lambda>a. bget a idx) (call_args ?x ?c (EpsScalar 1)))))
                           (ubody f))
                         (indices (if (0::nat) = 0 then [3] else [2, 3]))\<rparr>,
           ga\<lparr>cache := (cache ga)(key_of None 0 \<mapsto> f)\<rparr>))"
    by (rule call_result) (simp_all add: eps_array_def np_full_def ga_compiled_entries)
  then show ?thesis
    by (simp add: ga_fields compile_ga_0d args idx coordinate_symbols r_sym_def bget_def
        flat_index_def lift2_def pow_real_def del: indices.simps)
qed

text \<open>
  C5 (amended). A call whose \<open>x\<close> is not of rank 2, or whose \<open>c\<close> has a second axis
  that differs from that of \<open>x\<close>, or whose \<open>eps\<close> is an array of a length other than
  \<open>M\<close>, fails with a shape error and leaves the instance, its cache included, as it was;
  there is no result. For a wrong rank the error names the label, the actual rank and the
  expected rank; for a wrong axis length it names the axis, the label, the actual length and
  the expected length.
\<close>

theorem shape_errors_come_first:
  "(length (shape x) \<noteq> 2 \<longrightarrow>
      call eng s x c eps diff =
        (Inl (ShapeMismatch (WrongRank ''x'' (length (shape x)) 2)), s)) \<and>
   (shape x = [N, D] \<and> shape c = [M, D'] \<and> D' \<noteq> D \<longrightarrow>
      call eng s x c eps diff = (Inl (ShapeMismatch (WrongLength 1 ''c'' D' D)), s)) \<and>
   (shape x = [N, D] \<and> shape c = [M, D] \<and> eps = EpsArray a \<and> shape a = [L] \<and> L \<noteq> M \<longrightarrow>
      call eng s x c eps diff = (Inl (ShapeMismatch (WrongLength 0 ''eps'' L M)), s)) \<and>
   (length (shape x) \<noteq> 2 \<or>
    (length (shape c) = 2 \<and> shape c ! 1 \<noteq> shape x ! 1) \<or>
    (eps = EpsArray a \<and> length (shape a) = 1 \<and> shape a ! 0 \<noteq> shape c ! 0) \<longrightarrow>
      (\<exists>m. call eng s x c eps diff = (Inl (ShapeMismatch m), s)))"
proof (intro conjI impI)
  assume "length (shape x) \<noteq> 2"
  then show "call eng s x c eps diff =
        (Inl (ShapeMismatch (WrongRank ''x'' (length (shape x)) 2)), s)"
    by (simp add: call_def assert_shape_any2)
next
  assume "shape x = [N, D] \<and> shape c = [M, D'] \<and> D' \<noteq> D"
  then show "call eng s x c eps diff = (Inl (ShapeMismatch (WrongLength 1 ''c'' D' D)), s)"
    by (simp add: call_def assert_shape_simps)
next
  assume "shape x = [N, D] \<and> shape c = [M, D] \<and> eps = EpsArray a \<and> shape a = [L] \<and> L \<noteq> M"
  then show "call eng s x c eps diff = (Inl (ShapeMismatch (WrongLength 0 ''eps'' L M)), s)"
    by (simp add: call_def assert_shape_simps)
next
  assume "length (shape x) \<noteq> 2 \<or>
    (length (shape c) = 2 \<and> shape c ! 1 \<noteq> shape x ! 1) \<or>
    (eps = EpsArray a \<and> length (shape a) = 1 \<and> shape a ! 0 \<noteq> shape c ! 0)"
  then have "\<not> valid_args x c eps diff"
    by (auto simp: valid_args_def eps_array_def)
  then show "\<exists>m. call eng s x c eps diff = (Inl (ShapeMismatch m), s)"
    by (rule call_invalid)
qed

theorem shape_errors_come_first_witness:
  "call sample_engine phs1_used vector_2 centre_1d (EpsScalar 1) None =
     (Inl (ShapeMismatch (WrongRank ''x'' 1 2)), phs1_used) \<and>
   call sample_engine phs1_used points_1d centre_2d (EpsScalar 1) None =
     (Inl (ShapeMismatch (WrongLength 1 ''c'' 2 1)), phs1_used) \<and>
   call sample_engine phs1_used points_1d centre_1d (EpsArray vector_2) None =
     (Inl (ShapeMismatch (WrongLength 0 ''eps'' 2 1)), phs1_used)"
  using shape_errors_come_first [of vector_2 sample_engine phs1_used centre_1d "EpsScalar 1" None]
    shape_errors_come_first [of points_1d sample_engine phs1_used centre_2d "EpsScalar 1" None
      2 1 1 2]
    shape_errors_come_first [of points_1d sample_engine phs1_used centre_1d "EpsArray vector_2"
      None 2 1 1 1 vector_2 2]
  by (simp add: concrete_inputs)

theorem rank_error_names_no_axis:
  "fst (call sample_engine phs1 vector_2 centre_1d (EpsScalar 1) None) =
     Inl (ShapeMismatch (WrongRank ''x'' 1 2))"
  by (simp add: call_def assert_shape_any2 concrete_inputs)


text \<open>
  C9. When \<open>x\<close> has shape \<open>(N, D)\<close> and \<^verbatim>\<open>diff\<close> is given with a length other than
  \<open>D\<close>, the call fails with a shape error and leaves the instance, its cache included, as
  it was, whatever the cache holds; when \<open>c\<close> and \<open>eps\<close> pass their checks the error is
  the one about \<^verbatim>\<open>diff\<close>.
\<close>

theorem diff_length_checked_before_cache:
  assumes "shape x = [N, D]" and "length (tuple_of ds) \<noteq> D"
  shows "(\<exists>m. call eng s x c eps (Some ds) = (Inl (ShapeMismatch m), s)) \<and>
         (shape c = [M, D] \<and> shape (eps_array eps M) = [M] \<longrightarrow>
            call eng s x c eps (Some ds) =
              (Inl (ShapeMismatch (WrongLength 0 ''diff'' (length (tuple_of ds)) D)), s))"
proof
  from assms have "\<not> valid_args x c eps (Some ds)"
    by (simp add: valid_args_def)
  then show "\<exists>m. call eng s x c eps (Some ds) = (Inl (ShapeMismatch m), s)"
    by (rule call_invalid)
next
  show "shape c = [M, D] \<and> shape (eps_array eps M) = [M] \<longrightarrow>
            call eng s x c eps (Some ds) =
              (Inl (ShapeMismatch (WrongLength 0 ''diff'' (length (tuple_of ds)) D)), s)"
    using assms
    by (auto simp: call_def assert_shape_simps eps_array_def split: eps_arg.splits)
qed

theorem diff_length_checked_before_cache_witness:
  "cache phs1_used [0] \<noteq> None \<and>
   call sample_engine phs1_used points_2d centre_2d (EpsScalar 1) (Some (PyTuple [0])) =
     (Inl (ShapeMismatch (WrongLength 0 ''diff'' 1 2)), phs1_used)"
proof -
  have x: "shape points_2d = [2, 2]" and d: "length (tuple_of (PyTuple [0])) \<noteq> 2"
    by (simp_all add: concrete_inputs)
  show ?thesis
    using diff_length_checked_before_cache [OF x d, of sample_engine phs1_used centre_2d
        "EpsScalar 1" 1] phs1_used_cache(1)
    by (simp add: concrete_inputs eps_array_def np_full_def)
qed

text \<open>
  C10. A \<^verbatim>\<open>diff\<close> given as a list and the same entries given as a tuple make the same
  call: the same result and the same instance afterwards. When the call with the list
  succeeds, the cache holds an entry under the tuple of the entries, and a later call with
  the tuple leaves the cache as it is.
\<close>

theorem list_and_tuple_share_entry:
  "call eng s x c eps (Some (PyList ds)) = call eng s x c eps (Some (PyTuple ds)) \<and>
   (\<forall>out s1. call eng s x c eps (Some (PyList ds)) = (Inr out, s1) \<longrightarrow>
      cache s1 ds \<noteq> None \<and>
      (\<forall>eng' x' c' eps'. snd (call eng' s1 x' c' eps' (Some (PyTuple ds))) = s1))"
proof (intro conjI allI impI)
  show "call eng s x c eps (Some (PyList ds)) = call eng s x c eps (Some (PyTuple ds))"
    by (simp add: call_def cong: sum.case_cong)
next
  fix out s1
  assume ok: "call eng s x c eps (Some (PyList ds)) = (Inr out, s1)"
  from call_Inr_cached [OF ok] show "cache s1 ds \<noteq> None" by simp
next
  fix out s1 eng' and x' c' :: "real ndarray" and eps'
  assume ok: "call eng s x c eps (Some (PyList ds)) = (Inr out, s1)"
  from call_Inr_cached [OF ok] have "cache s1 ds \<noteq> None" by simp
  then show "snd (call eng' s1 x' c' eps' (Some (PyTuple ds))) = s1"
    using call_snd [of eng' s1 x' c' eps' "Some (PyTuple ds)"] by auto
qed

theorem list_and_tuple_share_entry_witness:
  "call sample_engine phs1 points_1d centre_1d (EpsScalar 1) (Some (PyList [0])) =
     call sample_engine phs1 points_1d centre_1d (EpsScalar 1) (Some (PyTuple [0])) \<and>
   (\<exists>out s1. call sample_engine phs1 points_1d centre_1d (EpsScalar 1) (Some (PyList [0])) =
        (Inr out, s1) \<and>
      cache s1 [0] \<noteq> None \<and>
      snd (call sample_engine s1 points_2d centre_2d (EpsScalar 2) (Some (PyTuple [0]))) = s1)"
proof -
  obtain out s1 where
    ok: "call sample_engine phs1 points_1d centre_1d (EpsScalar 1) (Some (PyList [0])) = (Inr out, s1)"
    using phs1_first_call_1d [of "Some (PyList [0])" sample_engine 1] by auto
  note th = list_and_tuple_share_entry [of sample_engine phs1 points_1d centre_1d "EpsScalar 1" "[0]"]
  from th have same: "call sample_engine phs1 points_1d centre_1d (EpsScalar 1) (Some (PyList [0])) =
     call sample_engine phs1 points_1d centre_1d (EpsScalar 1) (Some (PyTuple [0]))"
    by (rule conjunct1)
  from th ok have later: "cache s1 [0] \<noteq> None \<and>
      (\<forall>eng' x' c' eps'. snd (call eng' s1 x' c' eps' (Some (PyTuple [0]))) = s1)"
    by blast
  then have "snd (call sample_engine s1 points_2d centre_2d (EpsScalar 2) (Some (PyTuple [0]))) = s1"
    by blast
  with same ok later show ?thesis by blast
qed

text \<open>
  C6. The cache only grows: a call leaves every entry in place, and so does any sequence
  of calls. A call changes nothing when its derivative tuple is in the cache, and never
  touches the entry of another tuple. After a successful call, a call with the same
  derivative tuple, with any points, centres and shape parameters, leaves the instance as
  it is and does not depend on the symbolic engine at all: no differentiation, limit or
  compilation takes place, and the result of a valid call is the cached evaluator applied
  to the new arguments.
\<close>

theorem cache_grows:
  "cache s \<subseteq>\<^sub>m cache (snd (call eng s x c eps diff)) \<and>
   (\<forall>s'. evolves eng s s' \<longrightarrow> cache s \<subseteq>\<^sub>m cache s') \<and>
   (cache s (key_of diff (shape x ! 1)) \<noteq> None \<longrightarrow> snd (call eng s x c eps diff) = s) \<and>
   (\<forall>k. k \<noteq> key_of diff (shape x ! 1) \<longrightarrow>
        cache (snd (call eng s x c eps diff)) k = cache s k) \<and>
   (\<forall>out s1. call eng s x c eps diff = (Inr out, s1) \<longrightarrow>
      (\<forall>eng' x' c' eps' diff'.
         key_of diff' (shape x' ! 1) = key_of diff (shape x ! 1) \<longrightarrow>
           snd (call eng' s1 x' c' eps' diff') = s1 \<and>
           call eng' s1 x' c' eps' diff' = call eng s1 x' c' eps' diff' \<and>
           (valid_args x' c' eps' diff' \<longrightarrow>
              fst (call eng' s1 x' c' eps' diff') =
                ufunc_call (the (cache s1 (key_of diff (shape x ! 1))))
                  (call_args x' c' eps'))))"
proof (intro conjI allI impI)
  show "cache s \<subseteq>\<^sub>m cache (snd (call eng s x c eps diff))"
    using call_snd_update [of eng s x c eps diff] by (auto simp: map_le_def)
next
  fix s' assume "evolves eng s s'"
  then show "cache s \<subseteq>\<^sub>m cache s'" by (rule evolves_cache_mono)
next
  assume "cache s (key_of diff (shape x ! 1)) \<noteq> None"
  then show "snd (call eng s x c eps diff) = s"
    using call_snd [of eng s x c eps diff] by auto
next
  fix k assume "k \<noteq> key_of diff (shape x ! 1)"
  then show "cache (snd (call eng s x c eps diff)) k = cache s k"
    using call_snd_update [of eng s x c eps diff] by auto
next
  fix out s1 eng' and x' c' :: "real ndarray" and eps' diff'
  assume ok: "call eng s x c eps diff = (Inr out, s1)"
    and same: "key_of diff' (shape x' ! 1) = key_of diff (shape x ! 1)"
  from call_Inr_cached [OF ok] obtain f where f: "cache s1 (key_of diff (shape x ! 1)) = Some f"
    by auto
  show "snd (call eng' s1 x' c' eps' diff') = s1"
    using call_snd [of eng' s1 x' c' eps' diff'] f same by auto
  show "call eng' s1 x' c' eps' diff' = call eng s1 x' c' eps' diff'"
  proof (cases "valid_args x' c' eps' diff'")
    case True
    then show ?thesis using f same by (simp add: call_hit)
  next
    case False
    then show ?thesis by (rule call_invalid_any_engine)
  qed
  assume v: "valid_args x' c' eps' diff'"
  show "fst (call eng' s1 x' c' eps' diff') =
          ufunc_call (the (cache s1 (key_of diff (shape x ! 1)))) (call_args x' c' eps')"
    using f same by (simp add: call_hit [OF v])
qed

theorem cache_grows_witness:
  "\<exists>out s1. call sample_engine phs1 points_1d centre_1d (EpsScalar 1) None = (Inr out, s1) \<and>
     cache phs1 \<subseteq>\<^sub>m cache s1 \<and> cache s1 [0] \<noteq> None \<and>
     snd (call \<lparr>diff_op = \<lambda>e vs. None, limit_op = \<lambda>e v t. None\<rparr> s1 centre_1d points_1d
            (EpsArray vector_2) (Some (PyList [0]))) = s1 \<and>
     call \<lparr>diff_op = \<lambda>e vs. None, limit_op = \<lambda>e v t. None\<rparr> s1 centre_1d points_1d
            (EpsArray vector_2) (Some (PyList [0])) =
       call sample_engine s1 centre_1d points_1d (EpsArray vector_2) (Some (PyList [0]))"
proof -
  let ?none = "\<lparr>diff_op = \<lambda>e vs. None, limit_op = \<lambda>e v t. None\<rparr>"
  obtain out s1 where
    ok: "call sample_engine phs1 points_1d centre_1d (EpsScalar 1) None = (Inr out, s1)"
    using phs1_first_call_1d [of None sample_engine 1] by auto
  have k: "cache s1 [0] \<noteq> None" using call_Inr_cached [OF ok] by (simp add: concrete_inputs)
  have same: "key_of (Some (PyList [0])) (shape centre_1d ! 1) = key_of None (shape points_1d ! 1)"
    by (simp add: concrete_inputs)
  note th = cache_grows [of phs1 sample_engine points_1d centre_1d "EpsScalar 1" None]
  from th have mono: "cache phs1 \<subseteq>\<^sub>m cache (snd (call sample_engine phs1 points_1d centre_1d (EpsScalar 1) None))"
    by (rule conjunct1)
  then have mono': "cache phs1 \<subseteq>\<^sub>m cache s1" by (simp add: ok)
  from th ok same have
    "snd (call ?none s1 centre_1d points_1d (EpsArray vector_2) (Some (PyList [0]))) = s1 \<and>
     call ?none s1 centre_1d points_1d (EpsArray vector_2) (Some (PyList [0])) =
       call sample_engine s1 centre_1d points_1d (EpsArray vector_2) (Some (PyList [0]))"
    by blast
  with ok mono' k show ?thesis by blast
qed

text \<open>
  C8. Whatever a call does, succeed or fail, the expression, the tolerance and the limits
  table of the instance are afterwards what they were; only the cache can differ. This
  holds of the call on values and of the call on arrays in memory. In memory the call
  moreover leaves every buffer that existed before it as it was: the store only gains
  buffers, those of \<^verbatim>\<open>np.full\<close> and of the result. So the arrays \<open>x\<close>, \<open>c\<close> and
  \<open>eps\<close> of the caller, whose views are handed to the compiled evaluator, show after
  the call the items they showed before it, also when they share a buffer.
\<close>

theorem call_frame:
  "expr (snd (call eng s x c eps diff)) = expr s \<and>
   tol (snd (call eng s x c eps diff)) = tol s \<and>
   limits (snd (call eng s x c eps diff)) = limits s \<and>
   (\<forall>r s' st'. call_in_store eng s st xv cv er diff = (r, s', st') \<longrightarrow>
      expr s' = expr s \<and> tol s' = tol s \<and> limits s' = limits s \<and>
      length st \<le> length st' \<and> take (length st) st' = st \<and>
      (\<forall>v \<in> set (xv # cv # eps_views er).
         base v < length st \<longrightarrow> read_view st' v = read_view st v))"
proof -
  have a: "expr (snd (call eng s x c eps diff)) = expr s \<and>
   tol (snd (call eng s x c eps diff)) = tol s \<and>
   limits (snd (call eng s x c eps diff)) = limits s"
    using call_snd_update [of eng s x c eps diff] by auto
  have b: "expr s' = expr s \<and> tol s' = tol s \<and> limits s' = limits s \<and>
      length st \<le> length st' \<and> take (length st) st' = st \<and>
      (\<forall>v \<in> set (xv # cv # eps_views er).
         base v < length st \<longrightarrow> read_view st' v = read_view st v)"
    if h: "call_in_store eng s st xv cv er diff = (r, s', st')" for r s' st'
  proof -
    from call_in_store_appends [OF h] obtain ext where e: "st' = st @ ext" by blast
    from call_in_store_update [OF h] have
      "expr s' = expr s \<and> tol s' = tol s \<and> limits s' = limits s" by auto
    then show ?thesis by (simp add: e read_view_append)
  qed
  from a b show ?thesis by blast
qed

theorem call_frame_witness:
  "call_in_store sample_engine phs1 caller_store points_view centre_view (EpsView eps_view) None =
     (Inr \<lparr>base = 3, window = \<lparr>shape = [2, 1], items = [0, 1]\<rparr>\<rparr>, phs1_used,
      [[Some 0, Some 1], [Some 0], [Some 1], [Some 0, Some 1]]) \<and>
   cache phs1_used \<noteq> cache phs1 \<and> expr phs1_used = expr phs1 \<and>
   tol phs1_used = tol phs1 \<and> limits phs1_used = limits phs1 \<and>
   base points_view < length caller_store \<and> base centre_view < length caller_store \<and>
   base eps_view < length caller_store \<and>
   take (length caller_store) [[Some 0, Some 1], [Some 0], [Some 1], [Some 0, Some 1]] =
     caller_store \<and>
   read_view [[Some 0, Some 1], [Some 0], [Some 1], [Some 0, Some 1]] points_view =
     read_view caller_store points_view \<and>
   read_view [[Some 0, Some 1], [Some 0], [Some 1], [Some 0, Some 1]] centre_view =
     read_view caller_store centre_view \<and>
   read_view [[Some 0, Some 1], [Some 0], [Some 1], [Some 0, Some 1]] eps_view =
     read_view caller_store eps_view"
proof -
  let ?st' = "[[Some 0, Some 1], [Some 0], [Some 1], [Some 0, Some (1::real)]]"
  have b: "base points_view < length caller_store" "base centre_view < length caller_store"
    "base eps_view < length caller_store"
    by (simp_all add: caller_store_def points_view_def centre_view_def eps_view_def)
  have "expr phs1_used = expr phs1 \<and> tol phs1_used = tol phs1 \<and>
      limits phs1_used = limits phs1 \<and>
      length caller_store \<le> length ?st' \<and> take (length caller_store) ?st' = caller_store \<and>
      (\<forall>v \<in> set (points_view # centre_view # eps_views (EpsView eps_view)).
         base v < length caller_store \<longrightarrow> read_view ?st' v = read_view caller_store v)"
    using call_frame [of sample_engine phs1 points_1d centre_1d "EpsScalar 1" None
        caller_store points_view centre_view "EpsView eps_view"] store_run
    by blast
  then show ?thesis
    using b store_run phs1_used_cache(2) by (simp add: eps_views_def)
qed

end
